theory Spec2Isabelle
  imports Complex_Main "HOL-Library.AList" "HOL-Library.Sublist"
begin

section \<open>Data model of \<open>gblearn/gb.py\<close>\<close>

text \<open>
  The exceptions the modelled code can raise. \<open>ValueError\<close> is the explicit raise of
  \<open>uniquify\<close>; the others are raised by the interpreter (a missing dictionary key, an
  operation on \<open>None\<close>, a list index out of range, a failed \<open>assert\<close>).
\<close>

datatype error = ValueError | KeyError | TypeError | IndexError | AssertionError

text \<open>
  A representative identifier is the tuple \<open>(PID, VID)\<close>: the id of the grain boundary and
  the row of the atom in its SOAP matrix. The seed is stored under \<open>('0', 0)\<close>.
\<close>

type_synonym uid = "string \<times> nat"

definition seed_key :: uid where
  "seed_key = (''0'', 0)"

text \<open>
  The similarity kernel \<open>gblearn.soap.S\<close> is imported, not defined, in \<open>gb.py\<close>: it is a
  parameter of every function below. Its values are compared, never computed with, so they
  are taken as reals.

  An \<open>OrderedDict\<close> is an association list with distinct keys in insertion order:
  \<open>d[k] = v\<close> is \<^const>\<open>AList.update\<close> (in place when the key is present, appended
  otherwise), \<open>del d[k]\<close> is \<^const>\<open>AList.delete\<close>, \<open>k in d\<close> and \<open>d[k]\<close> are
  \<^const>\<open>map_of\<close>.

  The module is Python 2 code: a plain \<open>dict\<close> is iterated in the order of its hash
  table, not in insertion order. A plain dictionary keeps the representation above (the
  list records the order of insertion), and its iteration order is a parameter \<open>h\<close> of
  the functions that iterate one: \<open>h ks k\<close> is the rank of the key \<open>k\<close> in a dictionary
  whose keys were inserted in the order \<open>ks\<close>, and the items come by ascending rank,
  keys of equal rank in insertion order. Every order of the items is the order of some
  \<open>h\<close>, and nothing is assumed of \<open>h\<close>.
\<close>

type_synonym 'v kernel = "'v \<Rightarrow> 'v \<Rightarrow> real"
type_synonym 'v odict = "(uid \<times> 'v) list"
type_synonym lae_lists = "(uid \<times> uid list) list"
type_synonym used_flags = "(uid \<times> bool) list"
type_synonym dict_order = "uid list \<Rightarrow> uid \<Rightarrow> nat"

definition py_items :: "dict_order \<Rightarrow> (uid \<times> 'a) list \<Rightarrow> (uid \<times> 'a) list" where
  "py_items h d = sort_key (\<lambda>(k, v). h (map fst d) k) d"

section \<open>First pass: \<open>_uniquify\<close>\<close>

text \<open>
  The inner \<open>for u in list(uni.keys())\<close> loop of \<open>_uniquify\<close>: \<open>True\<close> when the loop
  leaves through \<open>break\<close> (some entry has \<open>S(Pv, uP) < eps\<close>), \<open>False\<close> when it runs to
  its \<open>else\<close> clause.
\<close>

fun uniquify_break :: "'v kernel \<Rightarrow> real \<Rightarrow> 'v \<Rightarrow> 'v odict \<Rightarrow> bool" where
  "uniquify_break S eps Pv [] = False"
| "uniquify_break S eps Pv ((u, uP) # rest) =
     (if S Pv uP < eps then True else uniquify_break S eps Pv rest)"

text \<open>
  \<open>_uniquify(NP, gbid, uni, eps)\<close>: the loop over the rows of \<open>NP\<close>; \<open>i\<close> is the index of
  the first row of the list still to be visited (0 at the call).
\<close>

fun uniquify_rows :: "'v kernel \<Rightarrow> 'v list \<Rightarrow> string \<Rightarrow> nat \<Rightarrow> 'v odict \<Rightarrow> real \<Rightarrow> 'v odict" where
  "uniquify_rows S [] gbid i uni eps = uni"
| "uniquify_rows S (Pv # NP) gbid i uni eps =
     uniquify_rows S NP gbid (Suc i)
       (if uniquify_break S eps Pv uni then uni else AList.update (gbid, i) Pv uni) eps"

definition uniquify_pass :: "'v kernel \<Rightarrow> 'v list \<Rightarrow> string \<Rightarrow> 'v odict \<Rightarrow> real \<Rightarrow> 'v odict" where
  "uniquify_pass S NP gbid uni eps = uniquify_rows S NP gbid 0 uni eps"

section \<open>Second pass: \<open>_classify\<close>\<close>

text \<open>
  The inner \<open>for u, uP in uni.items()\<close> loop of \<open>_classify\<close>, on the state
  \<open>(result, K0, U0)\<close>; \<open>U0\<close> is \<open>None\<close> until an entry is chosen.
\<close>

fun classify_scan :: "'v kernel \<Rightarrow> real \<Rightarrow> 'v \<Rightarrow> 'v odict \<Rightarrow>
    lae_lists \<times> real \<times> uid option \<Rightarrow> lae_lists \<times> real \<times> uid option" where
  "classify_scan S eps Pv [] st = st"
| "classify_scan S eps Pv ((u, uP) # rest) (result, K0, U0) =
     (let result' = (if map_of result u = None then AList.update u [u] result else result);
          K = S Pv uP
      in classify_scan S eps Pv rest
           (if K < eps \<and> K < K0 then (result', K, Some u) else (result', K0, U0)))"

text \<open>
  The outer loop of \<open>_classify\<close> on the state \<open>(result, used, warned)\<close>, where \<open>warned\<close>
  collects the atoms passed to \<open>msg.warn\<close>. \<open>result[U0]\<close> raises \<open>KeyError\<close> when \<open>U0\<close> is
  not a key of \<open>result\<close>, in particular when it is still \<open>None\<close>. A function that can
  raise after it has changed its arguments returns the exception (if any) together with
  the state reached.
\<close>

fun classify_rows :: "'v kernel \<Rightarrow> 'v list \<Rightarrow> string \<Rightarrow> nat \<Rightarrow> 'v odict \<Rightarrow> real \<Rightarrow>
    lae_lists \<times> used_flags \<times> uid list \<Rightarrow> error option \<times> lae_lists \<times> used_flags \<times> uid list" where
  "classify_rows S [] PID i uni eps st = (None, st)"
| "classify_rows S (Pv # NP) PID i uni eps (result, used, warned) =
     (case classify_scan S eps Pv uni (result, 1, None) of
        (result', K0, U0) \<Rightarrow>
          if K0 < eps then
            (case U0 of
               None \<Rightarrow> (Some KeyError, result', used, warned)
             | Some u \<Rightarrow>
                 (case map_of result' u of
                    None \<Rightarrow> (Some KeyError, result', used, warned)
                  | Some elist \<Rightarrow>
                      classify_rows S NP PID (Suc i) uni eps
                        (AList.update u (elist @ [(PID, i)]) result',
                         AList.update u True used, warned)))
          else classify_rows S NP PID (Suc i) uni eps (result', used, warned @ [(PID, i)]))"

definition classify_pass :: "'v kernel \<Rightarrow> 'v list \<Rightarrow> string \<Rightarrow> 'v odict \<Rightarrow> real \<Rightarrow>
    used_flags \<Rightarrow> uid list \<Rightarrow> error option \<times> lae_lists \<times> used_flags \<times> uid list" where
  "classify_pass S NP PID uni eps used warned =
     classify_rows S NP PID 0 uni eps ([], used, warned)"

section \<open>The collection and \<open>uniquify\<close>\<close>

text \<open>
  The values of the \<open>selectargs\<close> dictionary of a grain boundary are integers or floats
  (the padding) or strings (the selection method and attribute). The argument itself is
  \<open>None\<close> (the default), a dictionary, or another container such as a list, on which
  the membership test of the constructor works as well.
\<close>

datatype pyval = IntV int | FloatV real | StrV string

datatype selarg = NoneArg | DictArg "(string \<times> pyval) list" | ListArg "pyval list"

text \<open>
  A \<open>GrainBoundary\<close>: the atom positions \<open>xyz\<close> (its length is \<open>len(gb)\<close>), the list
  \<open>LAEs\<close> (\<open>None\<close> until \<open>trim\<close> creates it; an entry is \<open>None\<close> for the initial
  \<open>(None, None)\<close>) and the selection arguments.
\<close>

record 'p GrainBoundary =
  xyz :: "'p list"
  LAEs :: "uid option list option"
  selectargs :: selarg

text \<open>The dictionary returned by \<open>uniquify\<close>, with its keys \<open>"U"\<close> and \<open>"GBs"\<close>.\<close>

record 'v uresult =
  res_U :: "'v odict"
  res_GBs :: "(string \<times> lae_lists) list"

text \<open>
  The collection: \<open>samples\<close> lists \<open>gbfiles\<close> in order, each id with its matrix
  \<open>self.P[gbid]\<close> from the store (a list of rows); \<open>gbs\<close> is the collection itself, the
  ordered dictionary from ids to grain boundaries; \<open>store_U\<close> and \<open>store_LER\<close> are the
  cached results by threshold; \<open>logged\<close> is what has been passed to \<open>msg.warn\<close>.
\<close>

record ('v, 'p) collection =
  seed :: "'v option"
  samples :: "(string \<times> 'v list) list"
  gbs :: "(string \<times> 'p GrainBoundary) list"
  store_U :: "real \<Rightarrow> 'v uresult option"
  store_LER :: "real \<Rightarrow> real option list list option"
  logged :: "uid list"

text \<open>The first loop of \<open>uniquify\<close> over \<open>gbfiles\<close>.\<close>

fun uniquify_all :: "'v kernel \<Rightarrow> (string \<times> 'v list) list \<Rightarrow> 'v odict \<Rightarrow> real \<Rightarrow> 'v odict" where
  "uniquify_all S [] U eps = U"
| "uniquify_all S ((gbid, NP) # rest) U eps =
     uniquify_all S rest (uniquify_pass S NP gbid U eps) eps"

text \<open>The second loop of \<open>uniquify\<close>, on the state \<open>(result["GBs"], used, warned)\<close>.\<close>

fun classify_all :: "'v kernel \<Rightarrow> (string \<times> 'v list) list \<Rightarrow> 'v odict \<Rightarrow> real \<Rightarrow>
    (string \<times> lae_lists) list \<times> used_flags \<times> uid list \<Rightarrow>
    error option \<times> (string \<times> lae_lists) list \<times> used_flags \<times> uid list" where
  "classify_all S [] U eps st = (None, st)"
| "classify_all S ((gbid, NP) # rest) U eps (GBs, used, warned) =
     (case classify_pass S NP gbid U eps used warned of
        (Some e, laes, used', warned') \<Rightarrow> (Some e, GBs, used', warned')
      | (None, laes, used', warned') \<Rightarrow>
          classify_all S rest U eps (AList.update gbid laes GBs, used', warned'))"

text \<open>The loop \<open>for k, v in used.items(): if not v: del U[k]\<close>.\<close>

fun prune :: "used_flags \<Rightarrow> 'v odict \<Rightarrow> 'v odict" where
  "prune [] U = U"
| "prune ((k, v) # rest) U = prune rest (if \<not> v then AList.delete k U else U)"

text \<open>
  \<open>used\<close> and \<open>K\<close> are plain dictionaries: the pruning loop runs over \<open>used.items()\<close>
  and the sort over \<open>K.items()\<close> in their iteration order. \<open>K\<close> has the keys of the
  pruned \<open>U\<close>, inserted in the order of \<open>U\<close>, so its items come in the order of
  \<open>py_items h\<close> of the pruned \<open>U\<close>. \<open>sorted(K.items(), key=itemgetter(1), reverse=True)\<close>
  is a stable sort by descending score, that is \<^const>\<open>sort_key\<close> on the negated score,
  and the final comprehension pairs each key with its own vector \<open>U[u]\<close>, so the entries
  of \<open>U\<close> are sorted directly. The second component of the value is the list of warnings
  issued.
\<close>

definition uniquify :: "'v kernel \<Rightarrow> dict_order \<Rightarrow> ('v, 'p) collection \<Rightarrow> real \<Rightarrow>
    (error + 'v uresult) \<times> uid list" where
  "uniquify S h c eps =
     (case seed c of
        None \<Rightarrow> (Inl ValueError, [])
      | Some sd \<Rightarrow>
          (let U = uniquify_all S (samples c) [(seed_key, sd)] eps;
               used = map (\<lambda>(k, v). (k, False)) U
           in case classify_all S (samples c) U eps ([], used, []) of
                (Some e, GBs, used', warned) \<Rightarrow> (Inl e, warned)
              | (None, GBs, used', warned) \<Rightarrow>
                  (Inr \<lparr>res_U = sort_key (\<lambda>(u, v). - S v sd)
                                 (py_items h (prune (py_items h used') U)),
                        res_GBs = GBs\<rparr>,
                   warned)))"

section \<open>\<open>U\<close> and \<open>LER\<close>\<close>

text \<open>
  The loop \<open>for PID, VID in elist[1:]: self[gbid].LAEs[VID] = u\<close> of \<open>U\<close>, on the
  dictionary of grain boundaries (the caller passes \<open>elist[1:]\<close>): \<open>self[gbid]\<close> raises
  \<open>KeyError\<close> for an unknown id, the item assignment raises \<open>TypeError\<close> when \<open>LAEs\<close> is
  \<open>None\<close> and \<open>IndexError\<close> when \<open>VID\<close> is out of range.
\<close>

fun assign_elist :: "string \<Rightarrow> uid \<Rightarrow> uid list \<Rightarrow> (string \<times> 'p GrainBoundary) list \<Rightarrow>
    error option \<times> (string \<times> 'p GrainBoundary) list" where
  "assign_elist gbid u [] gs = (None, gs)"
| "assign_elist gbid u ((PID, VID) # rest) gs =
     (case map_of gs gbid of
        None \<Rightarrow> (Some KeyError, gs)
      | Some g \<Rightarrow>
          (case LAEs g of
             None \<Rightarrow> (Some TypeError, gs)
           | Some l \<Rightarrow>
               if VID < length l
               then assign_elist gbid u rest
                      (AList.update gbid (g\<lparr>LAEs := Some (l[VID := Some u])\<rparr>) gs)
               else (Some IndexError, gs)))"

text \<open>The loop \<open>for u, elist in LAEs.items()\<close> of \<open>U\<close>.\<close>

fun assign_items :: "string \<Rightarrow> lae_lists \<Rightarrow> (string \<times> 'p GrainBoundary) list \<Rightarrow>
    error option \<times> (string \<times> 'p GrainBoundary) list" where
  "assign_items gbid [] gs = (None, gs)"
| "assign_items gbid ((u, elist) # rest) gs =
     (case assign_elist gbid u (tl elist) gs of
        (Some e, gs') \<Rightarrow> (Some e, gs')
      | (None, gs') \<Rightarrow> assign_items gbid rest gs')"

text \<open>
  The loop \<open>for gbid in self.gbfiles\<close> of \<open>U\<close>; \<open>LAEs\<close> is the plain dictionary that
  \<open>_classify\<close> returned, and its items come in its iteration order.
\<close>

fun assign_all :: "dict_order \<Rightarrow> string list \<Rightarrow> (string \<times> lae_lists) list \<Rightarrow>
    (string \<times> 'p GrainBoundary) list \<Rightarrow> error option \<times> (string \<times> 'p GrainBoundary) list" where
  "assign_all h [] GBs gs = (None, gs)"
| "assign_all h (gbid # rest) GBs gs =
     (case map_of GBs gbid of
        None \<Rightarrow> (Some KeyError, gs)
      | Some laes \<Rightarrow>
          (case assign_items gbid (py_items h laes) gs of
             (Some e, gs') \<Rightarrow> (Some e, gs')
           | (None, gs') \<Rightarrow> assign_all h rest GBs gs'))"

text \<open>
  \<open>U(eps)\<close>: the value returned or the exception raised, with the collection as the call
  leaves it.
\<close>

definition get_U :: "'v kernel \<Rightarrow> dict_order \<Rightarrow> ('v, 'p) collection \<Rightarrow> real \<Rightarrow>
    (error + 'v uresult) \<times> ('v, 'p) collection" where
  "get_U S h c eps =
     (case (case store_U c eps of
              Some r \<Rightarrow> (Inr r, c)
            | None \<Rightarrow>
                (case uniquify S h c eps of
                   (Inl e, w) \<Rightarrow> (Inl e, c\<lparr>logged := logged c @ w\<rparr>)
                 | (Inr r, w) \<Rightarrow>
                     (Inr r, c\<lparr>store_U := (store_U c)(eps \<mapsto> r), logged := logged c @ w\<rparr>))) of
        (Inl e, c') \<Rightarrow> (Inl e, c')
      | (Inr r, c') \<Rightarrow>
          (case assign_all h (map fst (samples c')) (res_GBs r) (gbs c') of
             (Some e, gs') \<Rightarrow> (Inl e, c'\<lparr>gbs := gs'\<rparr>)
           | (None, gs') \<Rightarrow> (Inr r, c'\<lparr>gbs := gs'\<rparr>)))"

text \<open>
  One row of counts, \<open>self[gbid].LAEs.count(uid)\<close> for every \<open>uid\<close> of \<open>U["U"]\<close>; the
  method call on \<open>None\<close> raises (an \<open>AttributeError\<close>, here \<open>TypeError\<close>).
\<close>

definition count_row :: "uid list \<Rightarrow> uid option list option \<Rightarrow> error + nat list" where
  "count_row uids l =
     (if uids = [] then Inr []
      else case l of
             None \<Rightarrow> Inl TypeError
           | Some laes \<Rightarrow> Inr (map (\<lambda>uid. count_list laes (Some uid)) uids))"

text \<open>A numpy division of floats: \<open>None\<close> is \<open>nan\<close>, the value of \<open>0/0\<close>.\<close>

definition np_div :: "real \<Rightarrow> real \<Rightarrow> real option" where
  "np_div x n = (if n = 0 then None else Some (x / n))"

text \<open>The loop \<open>for gbi, gbid in enumerate(self)\<close> of \<open>LER\<close>, with the assertion.\<close>

fun LER_rows :: "uid list \<Rightarrow> 'p GrainBoundary list \<Rightarrow> error + real option list list" where
  "LER_rows uids [] = Inr []"
| "LER_rows uids (g # gs) =
     (case count_row uids (LAEs g) of
        Inl e \<Rightarrow> Inl e
      | Inr counts \<Rightarrow>
          (let N = sum_list counts
           in if N \<noteq> length (xyz g) then Inl AssertionError
              else (case LER_rows uids gs of
                      Inl e \<Rightarrow> Inl e
                    | Inr M \<Rightarrow> Inr (map (\<lambda>k. np_div (real k) (real N)) counts # M))))"

definition LER :: "'v kernel \<Rightarrow> dict_order \<Rightarrow> ('v, 'p) collection \<Rightarrow> real \<Rightarrow>
    (error + real option list list) \<times> ('v, 'p) collection" where
  "LER S h c eps =
     (case store_LER c eps of
        Some M \<Rightarrow> (Inr M, c)
      | None \<Rightarrow>
          (case get_U S h c eps of
             (Inl e, c') \<Rightarrow> (Inl e, c')
           | (Inr r, c') \<Rightarrow>
               (case LER_rows (map fst (res_U r)) (map snd (gbs c')) of
                  Inl e \<Rightarrow> (Inl e, c')
                | Inr M \<Rightarrow> (Inr M, c'\<lparr>store_LER := (store_LER c')(eps \<mapsto> M)\<rparr>))))"

section \<open>The constructor of \<open>GrainBoundary\<close>\<close>


section \<open>A kernel and an iteration order for concrete runs\<close>

text \<open>
  Descriptor vectors of dimension one with the distance \<open>|a - b|\<close>: symmetric, zero on
  identical vectors, never negative.
\<close>

definition absdiff :: "real kernel" where
  "absdiff a b = \<bar>a - b\<bar>"

text \<open>
  The iteration order in which all keys have the same rank: the items of a dictionary come
  in insertion order.
\<close>

definition insertion_order :: dict_order where
  "insertion_order ks k = 0"

text \<open>
  An iteration order that is not the insertion order: the key \<open>('454', 1)\<close> comes before
  the key \<open>('454', 0)\<close>, and the seed's key before both.
\<close>

definition slot_order :: dict_order where
  "slot_order ks k = (if k = (''454'', 0) then 7 else if k = (''454'', 1) then 4 else 2)"

section \<open>A freshly loaded collection\<close>

text \<open>
  The collection as it stands after \<open>load\<close>, \<open>soap\<close> and \<open>trim\<close>: one grain boundary
  per sample with as many atoms as its matrix has rows and every entry of \<open>LAEs\<close> still
  \<open>(None, None)\<close>, nothing cached, nothing logged.
\<close>

definition fresh_collection :: "'v option \<Rightarrow> (string \<times> 'v list) list \<Rightarrow> ('v, unit) collection" where
  "fresh_collection sd ss =
     \<lparr>seed = sd, samples = ss,
      gbs = map (\<lambda>(gbid, NP). (gbid, \<lparr>xyz = map (\<lambda>r. ()) NP, LAEs = Some (map (\<lambda>r. None) NP),
                                     selectargs = DictArg []\<rparr>)) ss,
      store_U = Map.empty, store_LER = Map.empty, logged = []\<rparr>"

section \<open>The extraction as the specification words it\<close>

text \<open>
  The atoms of a sample in index order, each with its representative identifier, and the
  atoms of the collection in collection order.
\<close>

fun rows_from :: "string \<Rightarrow> nat \<Rightarrow> 'v list \<Rightarrow> (uid \<times> 'v) list" where
  "rows_from gbid i [] = []"
| "rows_from gbid i (Pv # NP) = ((gbid, i), Pv) # rows_from gbid (Suc i) NP"

definition atoms_of :: "(string \<times> 'v list) list \<Rightarrow> (uid \<times> 'v) list" where
  "atoms_of ss = concat (map (\<lambda>(gbid, NP). rows_from gbid 0 NP) ss)"

text \<open>
  Specification, 4.1: an atom whose dissimilarity to every current entry is at least the
  threshold is inserted as a new entry (at the end: the order is insertion order), any
  other atom is skipped; the catalogue starts as the seed under the sentinel identifier.
\<close>

definition extract_step :: "'v kernel \<Rightarrow> real \<Rightarrow> 'v odict \<Rightarrow> uid \<times> 'v \<Rightarrow> 'v odict" where
  "extract_step S eps cat a =
     (if list_all (\<lambda>(u, uP). eps \<le> S (snd a) uP) cat then cat @ [a] else cat)"

definition extract_spec :: "'v kernel \<Rightarrow> 'v \<Rightarrow> (string \<times> 'v list) list \<Rightarrow> real \<Rightarrow> 'v odict" where
  "extract_spec S sd ss eps = foldl (extract_step S eps) [(seed_key, sd)] (atoms_of ss)"

section \<open>Loop bodies\<close>

text \<open>
  The body of the row loop of \<open>_uniquify\<close> for one atom \<open>a\<close> (its identifier and its
  vector), so that a pass is a fold of this step over the atoms.
\<close>

definition store_step :: "'v kernel \<Rightarrow> real \<Rightarrow> 'v odict \<Rightarrow> uid \<times> 'v \<Rightarrow> 'v odict" where
  "store_step S eps cat a =
     (if uniquify_break S eps (snd a) cat then cat else AList.update (fst a) (snd a) cat)"

text \<open>
  The first statement of the entry loop of \<open>_classify\<close>:
  \<open>if u not in result: result[u] = [u]\<close>.
\<close>

definition scan_add :: "lae_lists \<Rightarrow> uid \<Rightarrow> lae_lists" where
  "scan_add result u = (if map_of result u = None then AList.update u [u] result else result)"

text \<open>
  The atoms a classification result lists under the entry \<open>u\<close>, after the entry's own
  identifier (\<open>elist[1:]\<close>).
\<close>

definition members :: "lae_lists \<Rightarrow> uid \<Rightarrow> uid set" where
  "members laes u = (case map_of laes u of None \<Rightarrow> {} | Some elist \<Rightarrow> set (tl elist))"

text \<open>
  What holds of \<open>result\<close> and \<open>used\<close> while \<open>_classify\<close> runs, \<open>n\<close> atoms of the sample
  visited and \<open>used0\<close> the flags at the call: keys are distinct, lists are not empty, a
  listed atom has an index below \<open>n\<close> and its entry is flagged, a flag set during the call
  belongs to an entry with a listed atom, and flags are never cleared.
\<close>

definition rows_inv :: "nat \<Rightarrow> used_flags \<Rightarrow> lae_lists \<Rightarrow> used_flags \<Rightarrow> bool" where
  "rows_inv n used0 result used \<longleftrightarrow>
     distinct (map fst result) \<and>
     (\<forall>u elist. map_of result u = Some elist \<longrightarrow> elist \<noteq> []) \<and>
     (\<forall>u P j. (P, j) \<in> members result u \<longrightarrow> j < n \<and> map_of used u = Some True) \<and>
     (\<forall>u. map_of used u = Some True \<longrightarrow> map_of used0 u = Some True \<or> members result u \<noteq> {}) \<and>
     (\<forall>u. map_of used0 u = Some True \<longrightarrow> map_of used u = Some True) \<and>
     map fst used = map fst used0"

text \<open>Every atom with an index from \<open>i0\<close> up to \<open>n\<close> is listed under some entry.\<close>

definition covered :: "nat \<Rightarrow> nat \<Rightarrow> lae_lists \<Rightarrow> bool" where
  "covered i0 n result \<longleftrightarrow> (\<forall>j. i0 \<le> j \<and> j < n \<longrightarrow> (\<exists>u P. (P, j) \<in> members result u))"

text \<open>
  A finished classification result of a sample with \<open>n\<close> atoms, against the usage flags:
  keys are distinct, lists are not empty, and a listed atom has an index below \<open>n\<close> and a
  flagged entry.
\<close>

definition good_laes :: "nat \<Rightarrow> used_flags \<Rightarrow> lae_lists \<Rightarrow> bool" where
  "good_laes n used laes \<longleftrightarrow>
     distinct (map fst laes) \<and>
     (\<forall>u elist. map_of laes u = Some elist \<longrightarrow> elist \<noteq> []) \<and>
     (\<forall>u P j. (P, j) \<in> members laes u \<longrightarrow> j < n \<and> map_of used u = Some True)"

section \<open>The extraction pass\<close>

lemma update_fresh: "k \<notin> fst ` set al \<Longrightarrow> AList.update k v al = al @ [(k, v)]"
  by (induction al) auto

lemma uniquify_break_iff:
  "uniquify_break S eps Pv uni \<longleftrightarrow> \<not> list_all (\<lambda>(u, uP). eps \<le> S Pv uP) uni"
  by (induction uni) (auto simp: not_le)

lemma uniquify_rows_foldl:
  "uniquify_rows S NP gbid i uni eps = foldl (store_step S eps) uni (rows_from gbid i NP)"
  by (induction NP arbitrary: i uni) (simp_all add: store_step_def)

lemma uniquify_all_foldl:
  "uniquify_all S ss U eps = foldl (store_step S eps) U (atoms_of ss)"
  by (induction ss arbitrary: U)
     (auto simp: atoms_of_def uniquify_pass_def uniquify_rows_foldl)

lemma store_step_keys: "fst ` set (store_step S eps cat a) \<subseteq> insert (fst a) (fst ` set cat)"
  by (auto simp: store_step_def dom_update)

lemma store_step_fresh:
  "fst a \<notin> fst ` set cat \<Longrightarrow> store_step S eps cat a = extract_step S eps cat a"
  by (cases a) (simp add: store_step_def extract_step_def uniquify_break_iff update_fresh)

lemma foldl_store_fresh:
  "distinct (map fst as) \<Longrightarrow> (\<And>k. k \<in> set (map fst as) \<Longrightarrow> k \<notin> set (map fst cat)) \<Longrightarrow>
   foldl (store_step S eps) cat as = foldl (extract_step S eps) cat as"
proof (induction as arbitrary: cat)
  case Nil
  then show ?case by simp
next
  case (Cons a as)
  have "fst a \<notin> set (map fst cat)" using Cons.prems(2) [of "fst a"] by simp
  then have fresh: "fst a \<notin> fst ` set cat" by simp
  have step: "store_step S eps cat a = extract_step S eps cat a"
    using fresh by (rule store_step_fresh)
  have d: "distinct (map fst as)" and na: "fst a \<notin> set (map fst as)"
    using Cons.prems(1) by simp_all
  have sub: "set (map fst (store_step S eps cat a)) \<subseteq> insert (fst a) (set (map fst cat))"
    using store_step_keys [of S eps cat a] by simp
  have "foldl (store_step S eps) (store_step S eps cat a) as
      = foldl (extract_step S eps) (store_step S eps cat a) as"
  proof (rule Cons.IH [OF d])
    fix k assume k: "k \<in> set (map fst as)"
    then have "k \<noteq> fst a" using na by blast
    moreover have "k \<notin> set (map fst cat)" using Cons.prems(2) [of k] k by simp
    ultimately show "k \<notin> set (map fst (store_step S eps cat a))" using sub by blast
  qed
  with step show ?case by simp
qed

lemma rows_from_keys: "fst ` set (rows_from gbid i NP) = {(gbid, j) | j. i \<le> j \<and> j < i + length NP}"
proof (induction NP arbitrary: i)
  case Nil
  then show ?case by simp
next
  case (Cons a NP)
  show ?case
    apply (simp add: Cons.IH)
    apply (auto simp: le_Suc_eq)
    done
qed

lemma rows_from_distinct: "distinct (map fst (rows_from gbid i NP))"
proof (induction NP arbitrary: i)
  case Nil
  then show ?case by simp
next
  case (Cons a NP)
  have "(gbid, i) \<notin> fst ` set (rows_from gbid (Suc i) NP)"
    by (simp add: rows_from_keys)
  with Cons.IH [of "Suc i"] show ?case by simp
qed

lemma atoms_of_Cons: "atoms_of ((g, NP) # ss) = rows_from g 0 NP @ atoms_of ss"
  by (simp add: atoms_of_def)

lemma atoms_of_keys: "(g, j) \<in> fst ` set (atoms_of ss) \<Longrightarrow> g \<in> fst ` set ss"
proof (induction ss)
  case Nil
  then show ?case by (simp add: atoms_of_def)
next
  case (Cons s ss)
  obtain h NP where s: "s = (h, NP)" by (cases s)
  from Cons.prems have "(g, j) \<in> fst ` set (rows_from h 0 NP) \<or> (g, j) \<in> fst ` set (atoms_of ss)"
    by (auto simp: s atoms_of_Cons)
  then show ?case
  proof
    assume "(g, j) \<in> fst ` set (rows_from h 0 NP)"
    then have "g = h" by (simp add: rows_from_keys)
    then show ?thesis by (simp add: s)
  next
    assume "(g, j) \<in> fst ` set (atoms_of ss)"
    then show ?thesis using Cons.IH by simp
  qed
qed

lemma atoms_of_distinct: "distinct (map fst ss) \<Longrightarrow> distinct (map fst (atoms_of ss))"
proof (induction ss)
  case Nil
  then show ?case by (simp add: atoms_of_def)
next
  case (Cons s ss)
  obtain g NP where s: "s = (g, NP)" by (cases s)
  have g: "g \<notin> fst ` set ss" using Cons.prems s by auto
  have "fst ` set (rows_from g 0 NP) \<inter> fst ` set (atoms_of ss) = {}"
  proof (rule ccontr)
    assume "fst ` set (rows_from g 0 NP) \<inter> fst ` set (atoms_of ss) \<noteq> {}"
    then obtain k where k: "k \<in> fst ` set (rows_from g 0 NP)" "k \<in> fst ` set (atoms_of ss)" by blast
    from k(1) obtain j where "k = (g, j)" by (auto simp: rows_from_keys)
    with k(2) atoms_of_keys [of g j ss] g show False by simp
  qed
  then show ?case
    using Cons s by (simp add: atoms_of_Cons rows_from_distinct)
qed

lemma store_step_prefix: "prefix (map fst cat) (map fst (store_step S eps cat a))"
  by (simp add: store_step_def update_keys)

lemma foldl_store_prefix: "prefix (map fst cat) (map fst (foldl (store_step S eps) cat as))"
proof (induction as arbitrary: cat)
  case Nil
  then show ?case by simp
next
  case (Cons a as)
  from store_step_prefix [of cat S eps a] Cons.IH [of "store_step S eps cat a"]
  show ?case by (auto intro: prefix_order.trans)
qed

lemma uniquify_all_extract:
  assumes "distinct (map fst ss)" and "''0'' \<notin> fst ` set ss"
  shows "uniquify_all S ss [(seed_key, sd)] eps = extract_spec S sd ss eps"
proof -
  have sk: "seed_key \<notin> fst ` set (atoms_of ss)"
    using atoms_of_keys [of "''0''" 0 ss] assms(2) by (auto simp: seed_key_def)
  have "foldl (store_step S eps) [(seed_key, sd)] (atoms_of ss)
      = foldl (extract_step S eps) [(seed_key, sd)] (atoms_of ss)"
  proof (rule foldl_store_fresh [OF atoms_of_distinct [OF assms(1)]])
    fix k assume "k \<in> set (map fst (atoms_of ss))"
    moreover have "seed_key \<notin> set (map fst (atoms_of ss))" using sk by simp
    ultimately have "k \<noteq> seed_key" by blast
    then show "k \<notin> set (map fst [(seed_key, sd)])" by simp
  qed
  then show ?thesis by (simp add: uniquify_all_foldl extract_spec_def)
qed

text \<open>
  When no sample is named \<open>'0'\<close> and sample ids are distinct, the first loop of
  \<open>uniquify\<close> is the extraction the specification words: it starts from the seed alone
  and adds an atom at the end of the catalogue exactly when its dissimilarity to every
  entry present is at least the threshold. In every call the keys present stay, in their
  order.
\<close>

lemma extraction_greedy:
  assumes "distinct (map fst ss)" and "''0'' \<notin> fst ` set ss"
  shows "uniquify_all S ss [(seed_key, sd)] eps = extract_spec S sd ss eps \<and>
         prefix (map fst uni) (map fst (uniquify_pass S NP gbid uni eps)) \<and>
         prefix (map fst uni) (map fst (uniquify_all S ss uni eps))"
  using uniquify_all_extract [OF assms]
  by (simp add: uniquify_pass_def uniquify_rows_foldl uniquify_all_foldl foldl_store_prefix)

lemma extraction_greedy_example:
  "distinct (map fst [(''453'', [0, 5 :: real]), (''454'', [5, 1/4])]) \<and>
   ''0'' \<notin> fst ` set [(''453'', [0, 5 :: real]), (''454'', [5, 1/4])] \<and>
   uniquify_all absdiff [(''453'', [0, 5]), (''454'', [5, 1/4])] [(seed_key, 0)] (1/2)
     = [(seed_key, 0), ((''453'', 1), 5)] \<and>
   extract_spec absdiff 0 [(''453'', [0, 5]), (''454'', [5, 1/4])] (1/2)
     = [(seed_key, 0), ((''453'', 1), 5)]"
proof -
  have d: "distinct (map fst [(''453'', [0, 5 :: real]), (''454'', [5, 1/4])])" by simp
  have n: "''0'' \<notin> fst ` set [(''453'', [0, 5 :: real]), (''454'', [5, 1/4])]" by simp
  have e: "uniquify_all absdiff [(''453'', [0, 5]), (''454'', [5, 1/4])] [(seed_key, 0)] (1/2)
      = extract_spec absdiff 0 [(''453'', [0, 5]), (''454'', [5, 1/4])] (1/2)"
    using extraction_greedy [OF d n, of absdiff 0 "1/2" "[]" "[]" "''453''"] by blast
  have v: "uniquify_all absdiff [(''453'', [0, 5]), (''454'', [5, 1/4])] [(seed_key, 0)] (1/2)
      = [(seed_key, 0), ((''453'', 1), 5)]"
    by (simp add: uniquify_pass_def absdiff_def seed_key_def)
  from d n e v show ?thesis by simp
qed

section \<open>Pruning and the final order\<close>

lemma delete_subseq: "subseq (AList.delete k al) al"
  by (simp add: AList.delete_eq)

lemma prune_subseq: "subseq (prune used U) U"
proof (induction used arbitrary: U)
  case Nil
  then show ?case by simp
next
  case (Cons a used)
  obtain k v where a: "a = (k, v)" by (cases a)
  show ?case
  proof (cases v)
    case True
    with a Cons.IH [of U] show ?thesis by simp
  next
    case False
    from Cons.IH [of "AList.delete k U"] delete_subseq [of k U]
    have "subseq (prune used (AList.delete k U)) U" by (rule subseq_order.trans)
    with a False show ?thesis by simp
  qed
qed

lemma uniquify_InrD:
  assumes "uniquify S h c eps = (Inr r, w)" and "seed c = Some sd"
  obtains GBs used' where
    "classify_all S (samples c) (uniquify_all S (samples c) [(seed_key, sd)] eps) eps
       ([], map (\<lambda>(k, v). (k, False)) (uniquify_all S (samples c) [(seed_key, sd)] eps), [])
     = (None, GBs, used', w)"
    "res_U r = sort_key (\<lambda>(u, v). - S v sd)
                 (py_items h (prune (py_items h used')
                    (uniquify_all S (samples c) [(seed_key, sd)] eps)))"
    "res_GBs r = GBs"
proof -
  let ?E = "uniquify_all S (samples c) [(seed_key, sd)] eps"
  obtain e GBs used' w' where
    ca: "classify_all S (samples c) ?E eps ([], map (\<lambda>(k, v). (k, False)) ?E, []) = (e, GBs, used', w')"
    by (metis prod_cases4)
  show thesis
  proof (cases e)
    case None
    with assms ca have "r = \<lparr>res_U = sort_key (\<lambda>(u, v). - S v sd)
                                 (py_items h (prune (py_items h used') ?E)), res_GBs = GBs\<rparr>"
      and "w = w'"
      by (simp_all add: uniquify_def)
    with ca None that show ?thesis by simp
  next
    case (Some x)
    with assms ca show ?thesis by (simp add: uniquify_def)
  qed
qed

lemma neg_key_sorted:
  "sorted (map (\<lambda>a. - g a) xs) \<Longrightarrow> sorted_wrt (\<lambda>a b. g b \<le> (g a :: real)) xs"
  by (induction xs) auto

lemma delete_as_filter: "AList.delete k U = filter (\<lambda>kv. fst kv \<noteq> k) U"
  by (induction U) auto

lemma filter_swap: "filter P (filter Q xs) = filter Q (filter P xs)"
  by (induction xs) simp_all

lemma prune_filter: "prune used (filter P U) = filter P (prune used U)"
proof (induction used arbitrary: U)
  case Nil
  then show ?case by simp
next
  case (Cons a used)
  obtain k v where a: "a = (k, v)" by (cases a)
  have "AList.delete k (filter P U) = filter P (AList.delete k U)"
    unfolding delete_as_filter by (rule filter_swap)
  with Cons.IH show ?case by (simp add: a)
qed

lemma prune_eq_filter: "prune used U = filter (\<lambda>kv. (fst kv, False) \<notin> set used) U"
proof (induction used arbitrary: U)
  case Nil
  then show ?case by simp
next
  case (Cons a used)
  obtain k v where a: "a = (k, v)" by (cases a)
  show ?case
  proof (cases v)
    case True
    with Cons.IH [of U] show ?thesis by (simp add: a)
  next
    case False
    have "prune (a # used) U = prune used (filter (\<lambda>kv. fst kv \<noteq> k) U)"
      using False by (simp add: a delete_as_filter)
    also have "\<dots> = filter (\<lambda>kv. fst kv \<noteq> k) (prune used U)" by (rule prune_filter)
    also have "\<dots> = filter (\<lambda>kv. fst kv \<noteq> k) (filter (\<lambda>kv. (fst kv, False) \<notin> set used) U)"
      by (simp only: Cons.IH)
    also have "\<dots> = filter (\<lambda>kv. (fst kv, False) \<notin> set (a # used)) U"
      using False by (auto simp: a intro: filter_cong)
    finally show ?thesis .
  qed
qed

lemma flag_False_iff:
  assumes "distinct (map fst used)"
  shows "(k, False) \<in> set used \<longleftrightarrow> map_of used k = Some False"
  using assms by simp

lemma flag_cases:
  assumes "k \<in> set (map fst used)"
  shows "map_of used k = Some True \<or> map_of used k = Some False"
proof -
  from assms have "map_of used k \<noteq> None" by (simp add: map_of_eq_None_iff)
  then obtain b where "map_of used k = Some b" by blast
  then show ?thesis by (cases b) simp_all
qed

lemma prune_keys:
  assumes "distinct (map fst used)" and "set (map fst used) = set (map fst U)"
  shows "k \<in> set (map fst (prune used U)) \<longleftrightarrow> map_of used k = Some True"
proof
  assume "k \<in> set (map fst (prune used U))"
  then obtain v where kv: "(k, v) \<in> set U" and nf: "(k, False) \<notin> set used"
    unfolding prune_eq_filter by auto
  from kv have "k \<in> set (map fst U)" by force
  with assms(2) have "k \<in> set (map fst used)" by simp
  from flag_cases [OF this] nf flag_False_iff [OF assms(1), of k]
  show "map_of used k = Some True" by blast
next
  assume t: "map_of used k = Some True"
  then have "k \<in> set (map fst used)" by (metis map_of_eq_None_iff option.distinct(1) set_map)
  with assms(2) have "k \<in> set (map fst U)" by simp
  then obtain v where kv: "(k, v) \<in> set U" by auto
  have "(k, False) \<notin> set used" using t flag_False_iff [OF assms(1), of k] by simp
  with kv have "(k, v) \<in> set (prune used U)" unfolding prune_eq_filter by simp
  then show "k \<in> set (map fst (prune used U))" by force
qed

lemma prune_distinct: "distinct (map fst U) \<Longrightarrow> distinct (map fst (prune used U))"
  unfolding prune_eq_filter by (rule distinct_map_filter)

lemma sort_key_keys: "set (map fst (sort_key f xs)) = set (map fst xs)"
  by simp

lemma sort_key_distinct_keys:
  assumes "distinct (map fst xs)"
  shows "distinct (map fst (sort_key f xs))"
proof -
  from assms have "distinct xs" and "inj_on fst (set xs)" by (simp_all add: distinct_map)
  then show ?thesis by (simp add: distinct_map)
qed

lemma store_step_distinct: "distinct (map fst cat) \<Longrightarrow> distinct (map fst (store_step S eps cat a))"
  by (simp add: store_step_def distinct_update)

lemma foldl_store_distinct:
  "distinct (map fst cat) \<Longrightarrow> distinct (map fst (foldl (store_step S eps) cat as))"
  by (induction as arbitrary: cat) (simp_all add: store_step_distinct)

lemma uniquify_all_distinct:
  "distinct (map fst U) \<Longrightarrow> distinct (map fst (uniquify_all S ss U eps))"
  by (simp add: uniquify_all_foldl foldl_store_distinct)

lemma flags_init_keys: "map fst (map (\<lambda>(k, v). (k, False)) U) = map fst U"
  by (induction U) auto

lemma flags_init_False: "map_of (map (\<lambda>(k, v). (k, False)) U) k \<noteq> Some True"
  by (induction U) auto

lemma py_items_set: "set (py_items h d) = set d"
  by (simp add: py_items_def)

lemma py_items_keys: "set (map fst (py_items h d)) = set (map fst d)"
  by (simp add: py_items_def)

lemma py_items_distinct: "distinct (map fst d) \<Longrightarrow> distinct (map fst (py_items h d))"
  unfolding py_items_def by (rule sort_key_distinct_keys)

lemma py_items_map_of:
  assumes "distinct (map fst d)"
  shows "map_of (py_items h d) = map_of d"
proof -
  have "set (py_items h d) = set d" by (rule py_items_set)
  with py_items_distinct [OF assms, of h] assms show ?thesis
    by (simp add: map_of_inject_set)
qed

lemma survivors_filter:
  assumes "set R = set (filter (\<lambda>kv. (fst kv, False) \<notin> X) E)"
  shows "filter (\<lambda>e. fst e \<in> fst ` set R) E = filter (\<lambda>kv. (fst kv, False) \<notin> X) E"
proof (rule filter_cong [OF refl])
  fix e assume e: "e \<in> set E"
  let ?P = "filter (\<lambda>kv. (fst kv, False) \<notin> X) E"
  show "(fst e \<in> fst ` set R) = ((fst e, False) \<notin> X)"
  proof
    assume "fst e \<in> fst ` set R"
    then have "fst e \<in> fst ` set ?P" by (simp only: assms)
    then obtain e' where e': "e' \<in> set ?P" and eq: "fst e = fst e'" by (rule imageE)
    from e' have "(fst e', False) \<notin> X" by simp
    with eq show "(fst e, False) \<notin> X" by simp
  next
    assume "(fst e, False) \<notin> X"
    with e have "e \<in> set ?P" by simp
    then have "fst e \<in> fst ` set ?P" by (rule imageI)
    then show "fst e \<in> fst ` set R" by (simp only: assms)
  qed
qed

text \<open>
  C3, amended. The finalized catalogue returned by \<open>uniquify\<close> is ordered by descending
  score to the seed: every entry's dissimilarity to the seed is at least that of the
  entries after it, so the least seed-similar entry comes first and the most seed-similar
  last. Entries with the same score \<open>k\<close> come in the iteration order of the score
  dictionary, a plain dictionary holding the surviving entries of the extraction: for
  every iteration order \<open>h\<close>, they are the entries of that score among the surviving
  entries as \<open>h\<close> lists them.
\<close>

theorem finalized_descending:
  assumes "uniquify S h c eps = (Inr r, w)" and "seed c = Some sd"
  shows "sorted_wrt (\<lambda>a b. S (snd b) sd \<le> S (snd a) sd) (res_U r) \<and>
         filter (\<lambda>a. S (snd a) sd = k) (res_U r) =
         filter (\<lambda>a. S (snd a) sd = k)
           (py_items h (filter (\<lambda>e. fst e \<in> fst ` set (res_U r))
                          (uniquify_all S (samples c) [(seed_key, sd)] eps)))"
proof -
  let ?g = "\<lambda>a. S (snd a) sd"
  let ?f = "\<lambda>a. - ?g a"
  let ?E = "uniquify_all S (samples c) [(seed_key, sd)] eps"
  have f: "(\<lambda>(u, v). - S v sd) = ?f" by (simp add: fun_eq_iff)
  from assms obtain GBs :: "(string \<times> lae_lists) list" and used' where
    "res_U r = sort_key (\<lambda>(u, v). - S v sd) (py_items h (prune (py_items h used') ?E))"
    by (rule uniquify_InrD)
  then have U: "res_U r = sort_key ?f (py_items h (prune (py_items h used') ?E))"
    by (simp only: f)
  let ?X = "set (py_items h used')"
  let ?P = "filter (\<lambda>kv. (fst kv, False) \<notin> ?X) ?E"
  have P: "prune (py_items h used') ?E = ?P" by (rule prune_eq_filter)
  have "sorted (map ?f (res_U r))" unfolding U by (rule sorted_sort_key)
  then have s: "sorted_wrt (\<lambda>a b. ?g b \<le> ?g a) (res_U r)"
    by (rule neg_key_sorted)
  have "set (res_U r) = set ?P" unfolding U P by (simp add: py_items_set)
  then have surv: "filter (\<lambda>e. fst e \<in> fst ` set (res_U r)) ?E = ?P"
    by (rule survivors_filter)
  have "filter (\<lambda>y. ?f y = - k) (sort_key ?f (py_items h ?P))
      = filter (\<lambda>y. ?f y = - k) (py_items h ?P)"
    by (rule sort_key_stable)
  then have "filter (\<lambda>a. ?g a = k) (res_U r) = filter (\<lambda>a. ?g a = k) (py_items h ?P)"
    unfolding U P by simp
  then have "filter (\<lambda>a. ?g a = k) (res_U r) =
      filter (\<lambda>a. ?g a = k) (py_items h (filter (\<lambda>e. fst e \<in> fst ` set (res_U r)) ?E))"
    by (simp only: surv)
  with s show ?thesis by simp
qed

theorem finalized_descending_witness:
  "uniquify absdiff slot_order (fresh_collection (Some 0) [(''454'', [5, - 5, 0])]) (1/2)
     = (Inr \<lparr>res_U = [((''454'', 1), - 5), ((''454'', 0), 5), (seed_key, 0)],
             res_GBs = [(''454'', [(seed_key, [seed_key, (''454'', 2)]),
                                  ((''454'', 0), [(''454'', 0), (''454'', 0)]),
                                  ((''454'', 1), [(''454'', 1), (''454'', 1)])])]\<rparr>, []) \<and>
   seed (fresh_collection (Some (0::real)) [(''454'', [5, - 5, 0])]) = Some 0 \<and>
   filter (\<lambda>a. absdiff (snd a) 0 = 5) [((''454'', 1), - 5), ((''454'', 0), 5), (seed_key, 0)]
     = [((''454'', 1), - 5), ((''454'', 0), 5)]"
proof -
  have u: "uniquify absdiff slot_order (fresh_collection (Some 0) [(''454'', [5, - 5, 0])]) (1/2)
     = (Inr \<lparr>res_U = [((''454'', 1), - 5), ((''454'', 0), 5), (seed_key, 0)],
             res_GBs = [(''454'', [(seed_key, [seed_key, (''454'', 2)]),
                                  ((''454'', 0), [(''454'', 0), (''454'', 0)]),
                                  ((''454'', 1), [(''454'', 1), (''454'', 1)])])]\<rparr>, [])"
    by (simp add: uniquify_def fresh_collection_def uniquify_pass_def classify_pass_def
        absdiff_def seed_key_def py_items_def slot_order_def)
  have s: "seed (fresh_collection (Some (0::real)) [(''454'', [5, - 5, 0])]) = Some 0"
    by (simp add: fresh_collection_def)
  from finalized_descending [OF u s, of 5] u s show ?thesis
    by (simp add: absdiff_def seed_key_def)
qed

section \<open>The feature matrix\<close>

lemma count_row_length: "count_row uids l = Inr counts \<Longrightarrow> length counts = length uids"
  by (auto simp: count_row_def split: if_splits option.splits)

lemma count_row_nth:
  "count_row uids (Some l) = Inr counts \<Longrightarrow> j < length uids \<Longrightarrow>
   counts ! j = count_list l (Some (uids ! j))"
  by (auto simp: count_row_def split: if_splits)

lemma sum_list_divide:
  "sum_list (map (\<lambda>k. real k / n) counts) = real (sum_list counts) / n"
  by (induction counts) (simp_all add: add_divide_distrib)

lemma np_div_row:
  assumes "n \<noteq> 0"
  shows "map (\<lambda>k. np_div (real k) (real n)) counts = map Some (map (\<lambda>k. real k / real n) counts)"
  using assms by (simp add: np_div_def)

lemma LER_rows_Inr:
  "LER_rows uids gs = Inr M \<Longrightarrow>
   length M = length gs \<and>
   (\<forall>i < length gs. \<exists>counts.
       count_row uids (LAEs (gs ! i)) = Inr counts \<and>
       sum_list counts = length (xyz (gs ! i)) \<and>
       M ! i = map (\<lambda>k. np_div (real k) (real (length (xyz (gs ! i))))) counts)"
proof (induction gs arbitrary: M)
  case Nil
  then show ?case by simp
next
  case (Cons g gs)
  from Cons.prems obtain counts M' where
    c: "count_row uids (LAEs g) = Inr counts" and
    n: "sum_list counts = length (xyz g)" and
    r: "LER_rows uids gs = Inr M'" and
    m: "M = map (\<lambda>k. np_div (real k) (real (length (xyz g)))) counts # M'"
    by (auto simp: Let_def split: sum.splits if_splits)
  from Cons.IH [OF r] have len: "length M' = length gs" and
    rest: "\<forall>i < length gs. \<exists>counts.
       count_row uids (LAEs (gs ! i)) = Inr counts \<and>
       sum_list counts = length (xyz (gs ! i)) \<and>
       M' ! i = map (\<lambda>k. np_div (real k) (real (length (xyz (gs ! i))))) counts"
    by simp_all
  have "\<exists>cs. count_row uids (LAEs ((g # gs) ! i)) = Inr cs \<and>
       sum_list cs = length (xyz ((g # gs) ! i)) \<and>
       M ! i = map (\<lambda>k. np_div (real k) (real (length (xyz ((g # gs) ! i))))) cs"
    if "i < length (g # gs)" for i
  proof (cases i)
    case 0
    with c n m show ?thesis by simp
  next
    case (Suc j)
    with that have "j < length gs" by simp
    with rest Suc m show ?thesis by simp
  qed
  with len m show ?case by simp
qed

lemma LER_Inr_D:
  assumes "store_LER c eps = None" and "fst (LER S h c eps) = Inr M"
  obtains r where "fst (get_U S h c eps) = Inr r"
    and "LER_rows (map fst (res_U r)) (map snd (gbs (snd (get_U S h c eps)))) = Inr M"
    and "gbs (snd (LER S h c eps)) = gbs (snd (get_U S h c eps))"
proof -
  obtain x c' where g: "get_U S h c eps = (x, c')" by (cases "get_U S h c eps")
  show thesis
  proof (cases x)
    case (Inl e)
    with assms g show ?thesis by (simp add: LER_def)
  next
    case (Inr r)
    show ?thesis
    proof (cases "LER_rows (map fst (res_U r)) (map snd (gbs c'))")
      case (Inl e)
      with assms g Inr show ?thesis by (simp add: LER_def)
    next
      case rows: (Inr M')
      with assms g Inr have "M' = M" and "gbs (snd (LER S h c eps)) = gbs c'"
        by (simp_all add: LER_def)
      with rows g Inr that show ?thesis by simp
    qed
  qed
qed

text \<open>
  C4. A matrix computed by \<open>LER\<close> (nothing cached for the threshold) has one row per
  grain boundary of the collection and, in each row, one column per entry of the finalized
  catalogue \<open>U(eps)["U"]\<close>, in its order: column \<open>j\<close> is the number of atoms whose
  \<open>LAEs\<close> entry is the \<open>j\<close>-th identifier, divided by the atom count. When the atom count
  is not zero the row holds numbers, none negative, that sum to 1 (in exact arithmetic).
\<close>

theorem LER_rows_normalized:
  assumes "store_LER c eps = None" and "fst (LER S h c eps) = Inr M"
  shows "\<exists>r. fst (get_U S h c eps) = Inr r \<and>
           length M = length (gbs (snd (LER S h c eps))) \<and>
           (\<forall>i < length M.
              length (M ! i) = length (res_U r) \<and>
              (\<forall>j < length (res_U r). \<forall>l. LAEs (snd (gbs (snd (LER S h c eps)) ! i)) = Some l \<longrightarrow>
                 M ! i ! j = np_div (real (count_list l (Some (fst (res_U r ! j)))))
                                    (real (length (xyz (snd (gbs (snd (LER S h c eps)) ! i)))))) \<and>
              (xyz (snd (gbs (snd (LER S h c eps)) ! i)) \<noteq> [] \<longrightarrow>
                 (\<exists>vals. M ! i = map Some vals \<and> (\<forall>x \<in> set vals. 0 \<le> x) \<and> sum_list vals = 1)))"
proof -
  from assms obtain r where r: "fst (get_U S h c eps) = Inr r"
    and rows: "LER_rows (map fst (res_U r)) (map snd (gbs (snd (get_U S h c eps)))) = Inr M"
    and same: "gbs (snd (LER S h c eps)) = gbs (snd (get_U S h c eps))"
    by (rule LER_Inr_D)
  let ?gs = "gbs (snd (LER S h c eps))"
  let ?uids = "map fst (res_U r)"
  from LER_rows_Inr [OF rows] same
  have len: "length M = length ?gs"
    and each: "\<forall>i < length ?gs. \<exists>counts.
       count_row ?uids (LAEs (snd (?gs ! i))) = Inr counts \<and>
       sum_list counts = length (xyz (snd (?gs ! i))) \<and>
       M ! i = map (\<lambda>k. np_div (real k) (real (length (xyz (snd (?gs ! i)))))) counts"
    by simp_all
  have "length (M ! i) = length (res_U r) \<and>
        (\<forall>j < length (res_U r). \<forall>l. LAEs (snd (?gs ! i)) = Some l \<longrightarrow>
            M ! i ! j = np_div (real (count_list l (Some (fst (res_U r ! j)))))
                               (real (length (xyz (snd (?gs ! i)))))) \<and>
        (xyz (snd (?gs ! i)) \<noteq> [] \<longrightarrow>
            (\<exists>vals. M ! i = map Some vals \<and> (\<forall>x \<in> set vals. 0 \<le> x) \<and> sum_list vals = 1))"
    if i: "i < length M" for i
  proof -
    let ?n = "length (xyz (snd (?gs ! i)))"
    from each i len obtain counts where
      c: "count_row ?uids (LAEs (snd (?gs ! i))) = Inr counts" and
      n: "sum_list counts = ?n" and
      m: "M ! i = map (\<lambda>k. np_div (real k) (real ?n)) counts"
      by auto
    have l: "length counts = length (res_U r)" using count_row_length [OF c] by simp
    have a: "length (M ! i) = length (res_U r)" using m l by simp
    have b: "M ! i ! j = np_div (real (count_list l (Some (fst (res_U r ! j))))) (real ?n)"
      if "j < length (res_U r)" and "LAEs (snd (?gs ! i)) = Some l" for j l
      using count_row_nth [of ?uids l counts j] c that m l by simp
    have d: "\<exists>vals. M ! i = map Some vals \<and> (\<forall>x \<in> set vals. 0 \<le> x) \<and> sum_list vals = 1"
      if "xyz (snd (?gs ! i)) \<noteq> []"
    proof -
      from that have nz: "?n \<noteq> 0" by simp
      let ?vals = "map (\<lambda>k. real k / real ?n) counts"
      have "M ! i = map Some ?vals" using m np_div_row [OF nz] by simp
      moreover have "\<forall>x \<in> set ?vals. 0 \<le> x" by auto
      moreover have "sum_list ?vals = 1" using nz n by (simp add: sum_list_divide)
      ultimately show ?thesis by blast
    qed
    from a b d show ?thesis by blast
  qed
  with r len show ?thesis by blast
qed


theorem LER_rows_normalized_witness:
  "store_LER (fresh_collection (Some (0::real)) [(''453'', [0, 5, 0]), (''454'', [5, 5])]) (1/2) = None \<and>
   fst (LER absdiff insertion_order (fresh_collection (Some 0) [(''453'', [0, 5, 0]), (''454'', [5, 5])]) (1/2))
     = Inr [[Some (1/3), Some (2/3)], [Some 1, Some 0]] \<and>
   length [[Some (1/3), Some (2/3)], [Some 1, Some (0::real)]]
     = length (gbs (snd (LER absdiff insertion_order
         (fresh_collection (Some 0) [(''453'', [0, 5, 0]), (''454'', [5, 5])]) (1/2))))"
proof -
  let ?c = "fresh_collection (Some (0::real)) [(''453'', [0, 5, 0]), (''454'', [5, 5])]"
  have h1: "store_LER ?c (1/2) = None" by (simp add: fresh_collection_def)
  have h2: "fst (LER absdiff insertion_order ?c (1/2)) = Inr [[Some (1/3), Some (2/3)], [Some 1, Some 0]]"
    by (simp add: LER_def get_U_def uniquify_def fresh_collection_def uniquify_pass_def
        classify_pass_def absdiff_def seed_key_def py_items_def insertion_order_def count_row_def np_div_def)
  from LER_rows_normalized [OF h1 h2] have
    "length [[Some (1/3), Some (2/3)], [Some 1, Some (0::real)]]
       = length (gbs (snd (LER absdiff insertion_order ?c (1/2))))" by blast
  with h1 h2 show ?thesis by simp
qed

section \<open>The classification pass\<close>

lemma scan_add_map_of:
  "map_of (scan_add result u) k = (if map_of result k = None \<and> k = u then Some [k] else map_of result k)"
  by (auto simp: scan_add_def update_conv')

lemma scan_add_distinct: "distinct (map fst result) \<Longrightarrow> distinct (map fst (scan_add result u))"
  by (simp add: scan_add_def distinct_update)

lemma classify_scan_Cons:
  "classify_scan S eps Pv ((u, uP) # rest) (result, K0, U0) =
     classify_scan S eps Pv rest
       (if S Pv uP < eps \<and> S Pv uP < K0 then (scan_add result u, S Pv uP, Some u)
        else (scan_add result u, K0, U0))"
  by (simp add: scan_add_def Let_def)

lemma scan_map_of:
  "classify_scan S eps Pv uni (result, K0, U0) = (result', K0', U0') \<Longrightarrow>
   map_of result' k = (if map_of result k = None \<and> k \<in> fst ` set uni then Some [k] else map_of result k)"
proof (induction uni arbitrary: result K0 U0)
  case Nil
  then show ?case by simp
next
  case (Cons a uni)
  obtain u uP where a: "a = (u, uP)" by (cases a)
  from Cons.prems obtain K1 U1 where
    "classify_scan S eps Pv uni (scan_add result u, K1, U1) = (result', K0', U0')"
    unfolding a classify_scan_Cons by (auto split: if_splits)
  from Cons.IH [OF this]
  have "map_of result' k = (if map_of (scan_add result u) k = None \<and> k \<in> fst ` set uni
          then Some [k] else map_of (scan_add result u) k)" .
  then show ?case
    unfolding a scan_add_map_of by (simp split: if_splits)
qed

lemma scan_distinct:
  "classify_scan S eps Pv uni (result, K0, U0) = (result', K0', U0') \<Longrightarrow>
   distinct (map fst result) \<Longrightarrow> distinct (map fst result')"
proof (induction uni arbitrary: result K0 U0)
  case Nil
  then show ?case by simp
next
  case (Cons a uni)
  obtain u uP where a: "a = (u, uP)" by (cases a)
  from Cons.prems(1) obtain K1 U1 where
    "classify_scan S eps Pv uni (scan_add result u, K1, U1) = (result', K0', U0')"
    unfolding a classify_scan_Cons by (auto split: if_splits)
  from Cons.IH [OF this scan_add_distinct [OF Cons.prems(2)]] show ?case .
qed

lemma scan_choice:
  "classify_scan S eps Pv uni (result, K0, U0) = (result', K0', U0') \<Longrightarrow>
   K0' \<le> K0 \<and>
   (\<forall>e \<in> set uni. S Pv (snd e) < eps \<longrightarrow> K0' \<le> S Pv (snd e)) \<and>
   (U0' = U0 \<and> K0' = K0 \<or> (\<exists>e \<in> set uni. U0' = Some (fst e) \<and> K0' = S Pv (snd e) \<and> K0' < eps))"
proof (induction uni arbitrary: result K0 U0)
  case Nil
  then show ?case by simp
next
  case (Cons a uni)
  obtain u uP where a: "a = (u, uP)" by (cases a)
  show ?case
  proof (cases "S Pv uP < eps \<and> S Pv uP < K0")
    case True
    with Cons.prems have
      "classify_scan S eps Pv uni (scan_add result u, S Pv uP, Some u) = (result', K0', U0')"
      unfolding a classify_scan_Cons by simp
    from Cons.IH [OF this] have le: "K0' \<le> S Pv uP"
      and mn: "\<forall>e \<in> set uni. S Pv (snd e) < eps \<longrightarrow> K0' \<le> S Pv (snd e)"
      and ch: "U0' = Some u \<and> K0' = S Pv uP \<or>
               (\<exists>e \<in> set uni. U0' = Some (fst e) \<and> K0' = S Pv (snd e) \<and> K0' < eps)"
      by simp_all
    have 1: "K0' \<le> K0" using le True by simp
    have 2: "\<forall>e \<in> set (a # uni). S Pv (snd e) < eps \<longrightarrow> K0' \<le> S Pv (snd e)"
      using mn le by (simp add: a)
    have 3: "\<exists>e \<in> set (a # uni). U0' = Some (fst e) \<and> K0' = S Pv (snd e) \<and> K0' < eps"
      using ch True by (auto simp: a)
    from 1 2 3 show ?thesis by blast
  next
    case False
    with Cons.prems have
      "classify_scan S eps Pv uni (scan_add result u, K0, U0) = (result', K0', U0')"
      unfolding a classify_scan_Cons by simp
    from Cons.IH [OF this] have le: "K0' \<le> K0"
      and mn: "\<forall>e \<in> set uni. S Pv (snd e) < eps \<longrightarrow> K0' \<le> S Pv (snd e)"
      and ch: "U0' = U0 \<and> K0' = K0 \<or>
               (\<exists>e \<in> set uni. U0' = Some (fst e) \<and> K0' = S Pv (snd e) \<and> K0' < eps)"
      by simp_all
    have 2: "\<forall>e \<in> set (a # uni). S Pv (snd e) < eps \<longrightarrow> K0' \<le> S Pv (snd e)"
      using mn le False by (auto simp: a)
    have 3: "U0' = U0 \<and> K0' = K0 \<or>
        (\<exists>e \<in> set (a # uni). U0' = Some (fst e) \<and> K0' = S Pv (snd e) \<and> K0' < eps)"
      using ch by auto
    from le 2 3 show ?thesis by blast
  qed
qed

lemma members_scan:
  assumes "classify_scan S eps Pv uni (result, K0, U0) = (result', K0', U0')"
  shows "members result' k = members result k"
  using scan_map_of [OF assms, of k] by (auto simp: members_def split: option.splits)

lemma scan_nonempty:
  assumes "classify_scan S eps Pv uni (result, K0, U0) = (result', K0', U0')"
    and "\<forall>u elist. map_of result u = Some elist \<longrightarrow> elist \<noteq> []"
    and "map_of result' k = Some elist"
  shows "elist \<noteq> []"
proof -
  have "map_of result' k = Some [k] \<or> map_of result' k = map_of result k"
    using scan_map_of [OF assms(1), of k] by (simp split: if_splits)
  then show ?thesis
  proof
    assume "map_of result' k = Some [k]"
    with assms(3) show ?thesis by auto
  next
    assume "map_of result' k = map_of result k"
    with assms(3) have "map_of result k = Some elist" by simp
    with assms(2) show ?thesis by blast
  qed
qed

lemma members_update:
  assumes "map_of r u = Some elist" and "elist \<noteq> []"
  shows "members (AList.update u (elist @ [x]) r) k = (if k = u then insert x (members r u) else members r k)"
  using assms by (auto simp: members_def update_conv')

lemma update_keys_same: "k \<in> fst ` set al \<Longrightarrow> map fst (AList.update k v al) = map fst al"
  by (simp add: update_keys)

lemma rows_inv_assign:
  assumes inv: "rows_inv n used0 result used"
    and el: "map_of result u = Some elist"
    and ku: "u \<in> fst ` set used"
  shows "rows_inv (Suc n) used0 (AList.update u (elist @ [(PID, n)]) result) (AList.update u True used)"
proof -
  let ?r = "AList.update u (elist @ [(PID, n)]) result"
  let ?us = "AList.update u True used"
  from inv have d: "distinct (map fst result)"
    and ne: "\<forall>u elist. map_of result u = Some elist \<longrightarrow> elist \<noteq> []"
    and mu: "\<forall>u P j. (P, j) \<in> members result u \<longrightarrow> j < n \<and> map_of used u = Some True"
    and um: "\<forall>u. map_of used u = Some True \<longrightarrow> map_of used0 u = Some True \<or> members result u \<noteq> {}"
    and mono: "\<forall>u. map_of used0 u = Some True \<longrightarrow> map_of used u = Some True"
    and keys: "map fst used = map fst used0"
    by (simp_all add: rows_inv_def)
  from ne el have e: "elist \<noteq> []" by blast
  have mem: "members ?r k = (if k = u then insert (PID, n) (members result u) else members result k)" for k
    using members_update [OF el e] by simp
  have used: "map_of ?us k = (if k = u then Some True else map_of used k)" for k
    by (simp add: update_conv')
  have 1: "distinct (map fst ?r)" using d by (simp add: distinct_update)
  have 2: "\<forall>k l. map_of ?r k = Some l \<longrightarrow> l \<noteq> []"
    using ne by (auto simp: update_conv')
  have 3: "\<forall>k P j. (P, j) \<in> members ?r k \<longrightarrow> j < Suc n \<and> map_of ?us k = Some True"
  proof (intro allI impI)
    fix k P j assume a: "(P, j) \<in> members ?r k"
    show "j < Suc n \<and> map_of ?us k = Some True"
    proof (cases "k = u")
      case True
      with a mem have "(P, j) = (PID, n) \<or> (P, j) \<in> members result u" by simp
      then have "j < Suc n"
      proof
        assume "(P, j) = (PID, n)"
        then show ?thesis by simp
      next
        assume "(P, j) \<in> members result u"
        with mu have "j < n" by blast
        then show ?thesis by simp
      qed
      with True used show ?thesis by simp
    next
      case False
      with a mem have "(P, j) \<in> members result k" by simp
      with mu have "j < n" and "map_of used k = Some True" by blast+
      with False used show ?thesis by simp
    qed
  qed
  have 4: "\<forall>k. map_of ?us k = Some True \<longrightarrow> map_of used0 k = Some True \<or> members ?r k \<noteq> {}"
  proof (intro allI impI)
    fix k assume a: "map_of ?us k = Some True"
    show "map_of used0 k = Some True \<or> members ?r k \<noteq> {}"
    proof (cases "k = u")
      case True
      with mem show ?thesis by simp
    next
      case False
      with a used have "map_of used k = Some True" by simp
      with um have "map_of used0 k = Some True \<or> members result k \<noteq> {}" by blast
      with False mem show ?thesis by simp
    qed
  qed
  have 5: "\<forall>k. map_of used0 k = Some True \<longrightarrow> map_of ?us k = Some True"
    using mono used by simp
  have 6: "map fst ?us = map fst used0"
    using keys update_keys_same [OF ku] by simp
  from 1 2 3 4 5 6 show ?thesis unfolding rows_inv_def by blast
qed

lemma rows_inv_scan:
  assumes sc: "classify_scan S eps Pv uni (result, K0, U0) = (result', K0', U0')"
    and inv: "rows_inv n used0 result used"
  shows "rows_inv n used0 result' used"
proof -
  have m: "members result' k = members result k" for k by (rule members_scan [OF sc])
  from inv have ne: "\<forall>u elist. map_of result u = Some elist \<longrightarrow> elist \<noteq> []"
    by (simp add: rows_inv_def)
  have "\<forall>k l. map_of result' k = Some l \<longrightarrow> l \<noteq> []"
    using scan_nonempty [OF sc ne] by blast
  moreover have "distinct (map fst result')"
    using scan_distinct [OF sc] inv by (simp add: rows_inv_def)
  ultimately show ?thesis using inv by (simp add: rows_inv_def m)
qed

lemma rows_inv_Suc:
  assumes "rows_inv n used0 result used"
  shows "rows_inv (Suc n) used0 result used"
proof -
  from assms have mu: "\<forall>u P j. (P, j) \<in> members result u \<longrightarrow> j < n \<and> map_of used u = Some True"
    by (simp add: rows_inv_def)
  have "\<forall>u P j. (P, j) \<in> members result u \<longrightarrow> j < Suc n \<and> map_of used u = Some True"
  proof (intro allI impI)
    fix u P j assume "(P, j) \<in> members result u"
    with mu have "j < n \<and> map_of used u = Some True" by blast
    then show "j < Suc n \<and> map_of used u = Some True" by simp
  qed
  with assms show ?thesis by (simp add: rows_inv_def)
qed

lemma rows_inv_keys:
  assumes "rows_inv n used0 result used"
  shows "fst ` set used = fst ` set used0"
proof -
  from assms have "map fst used = map fst used0" by (simp add: rows_inv_def)
  then have "set (map fst used) = set (map fst used0)" by simp
  then show ?thesis by simp
qed


lemma classify_rows_Cons:
  assumes "classify_scan S eps Pv uni (result, 1, None) = (result1, K1, U1)"
  shows "classify_rows S (Pv # NP) PID i uni eps (result, used, warned) =
     (if K1 < eps then
        (case U1 of
           None \<Rightarrow> (Some KeyError, result1, used, warned)
         | Some u \<Rightarrow>
             (case map_of result1 u of
                None \<Rightarrow> (Some KeyError, result1, used, warned)
              | Some elist \<Rightarrow>
                  classify_rows S NP PID (Suc i) uni eps
                    (AList.update u (elist @ [(PID, i)]) result1, AList.update u True used, warned)))
      else classify_rows S NP PID (Suc i) uni eps (result1, used, warned @ [(PID, i)]))"
  using assms by simp

lemma classify_rows_Cons_None:
  assumes sc: "classify_scan S eps Pv uni (result, 1, None) = (result1, K1, U1)"
    and ok: "classify_rows S (Pv # NP) PID i uni eps (result, used, warned) = (None, R)"
  shows "(K1 < eps \<and> (\<exists>u elist. U1 = Some u \<and> map_of result1 u = Some elist \<and>
             classify_rows S NP PID (Suc i) uni eps
               (AList.update u (elist @ [(PID, i)]) result1, AList.update u True used, warned) = (None, R))) \<or>
         (\<not> K1 < eps \<and>
             classify_rows S NP PID (Suc i) uni eps (result1, used, warned @ [(PID, i)]) = (None, R))"
proof (cases "K1 < eps")
  case False
  with ok show ?thesis unfolding classify_rows_Cons [OF sc] by simp
next
  case True
  show ?thesis
  proof (cases U1)
    case None
    with ok True show ?thesis unfolding classify_rows_Cons [OF sc] by simp
  next
    case (Some u)
    show ?thesis
    proof (cases "map_of result1 u")
      case None
      with ok True Some show ?thesis unfolding classify_rows_Cons [OF sc] by simp
    next
      case (Some elist)
      with ok True \<open>U1 = Some u\<close> show ?thesis unfolding classify_rows_Cons [OF sc] by simp
    qed
  qed
qed

lemma scan_chosen_key:
  assumes "classify_scan S eps Pv uni (result, K0, None) = (result1, K1, Some u)"
  shows "u \<in> fst ` set uni"
  using scan_choice [OF assms] by auto

lemma classify_rows_inv:
  assumes "classify_rows S NP PID i uni eps (result, used, warned) = (None, result', used', warned')"
    and "rows_inv i used0 result used"
    and "fst ` set uni \<subseteq> fst ` set used0"
  shows "rows_inv (i + length NP) used0 result' used'"
  using assms
proof (induction NP arbitrary: i result used warned)
  case Nil
  then show ?case by simp
next
  case (Cons Pv NP)
  obtain result1 K1 U1 where sc: "classify_scan S eps Pv uni (result, 1, None) = (result1, K1, U1)"
    by (cases "classify_scan S eps Pv uni (result, 1, None)") auto
  have inv1: "rows_inv i used0 result1 used" by (rule rows_inv_scan [OF sc Cons.prems(2)])
  note eq = classify_rows_Cons_None [OF sc Cons.prems(1)]
  show ?case
  proof (cases "K1 < eps")
    case True
    with eq obtain u elist where u: "U1 = Some u" and el: "map_of result1 u = Some elist"
      and rec: "classify_rows S NP PID (Suc i) uni eps
                  (AList.update u (elist @ [(PID, i)]) result1, AList.update u True used, warned)
                = (None, result', used', warned')"
      by blast
    have "u \<in> fst ` set uni" by (rule scan_chosen_key [OF sc [unfolded u]])
    with Cons.prems(3) have "u \<in> fst ` set used0" by (rule subsetD)
    then have ku: "u \<in> fst ` set used" by (simp only: rows_inv_keys [OF inv1])
    have "rows_inv (Suc i) used0 (AList.update u (elist @ [(PID, i)]) result1) (AList.update u True used)"
      by (rule rows_inv_assign [OF inv1 el ku])
    from Cons.IH [OF rec this Cons.prems(3)] show ?thesis by simp
  next
    case False
    with eq have rec: "classify_rows S NP PID (Suc i) uni eps (result1, used, warned @ [(PID, i)])
                = (None, result', used', warned')" by blast
    from Cons.IH [OF rec rows_inv_Suc [OF inv1] Cons.prems(3)] show ?thesis by simp
  qed
qed

lemma covered_assign:
  assumes "covered i0 n result" and "map_of result u = Some elist" and "elist \<noteq> []"
  shows "covered i0 (Suc n) (AList.update u (elist @ [(PID, n)]) result)"
proof -
  let ?r = "AList.update u (elist @ [(PID, n)]) result"
  have mem: "members ?r k = (if k = u then insert (PID, n) (members result u) else members result k)" for k
    using members_update [OF assms(2,3)] by simp
  have "\<exists>k P. (P, j) \<in> members ?r k" if j: "i0 \<le> j \<and> j < Suc n" for j
  proof (cases "j = n")
    case True
    have "(PID, n) \<in> members ?r u" using mem by simp
    with True show ?thesis by blast
  next
    case False
    with j have "i0 \<le> j \<and> j < n" by simp
    with assms(1) obtain k P where "(P, j) \<in> members result k" unfolding covered_def by blast
    then have "(P, j) \<in> members ?r k" unfolding mem by (cases "k = u") simp_all
    then show ?thesis by blast
  qed
  then show ?thesis unfolding covered_def by blast
qed

lemma covered_scan:
  assumes "classify_scan S eps Pv uni (result, K0, U0) = (result', K0', U0')"
    and "covered i0 n result"
  shows "covered i0 n result'"
  using assms(2) unfolding covered_def members_scan [OF assms(1)] .

lemma classify_rows_covered:
  assumes "classify_rows S NP PID i uni eps (result, used, warned) = (None, result', used', warned')"
    and "rows_inv i used0 result used"
    and "fst ` set uni \<subseteq> fst ` set used0"
    and "covered i0 i result"
    and "\<forall>Pv \<in> set NP. \<exists>e \<in> set uni. S Pv (snd e) < eps"
  shows "covered i0 (i + length NP) result' \<and> warned' = warned"
  using assms
proof (induction NP arbitrary: i result used warned)
  case Nil
  then show ?case by simp
next
  case (Cons Pv NP)
  obtain result1 K1 U1 where sc: "classify_scan S eps Pv uni (result, 1, None) = (result1, K1, U1)"
    by (cases "classify_scan S eps Pv uni (result, 1, None)") auto
  have inv1: "rows_inv i used0 result1 used" by (rule rows_inv_scan [OF sc Cons.prems(2)])
  have cov1: "covered i0 i result1" by (rule covered_scan [OF sc Cons.prems(4)])
  from Cons.prems(5) obtain e where e: "e \<in> set uni" "S Pv (snd e) < eps" by auto
  with scan_choice [OF sc] have "K1 \<le> S Pv (snd e)" by blast
  with e have lt: "K1 < eps" by simp
  note eq = classify_rows_Cons_None [OF sc Cons.prems(1)]
  from eq lt obtain u elist where u: "U1 = Some u" and el: "map_of result1 u = Some elist"
      and rec: "classify_rows S NP PID (Suc i) uni eps
                  (AList.update u (elist @ [(PID, i)]) result1, AList.update u True used, warned)
                = (None, result', used', warned')"
    by blast
  have "u \<in> fst ` set uni" by (rule scan_chosen_key [OF sc [unfolded u]])
  with Cons.prems(3) have "u \<in> fst ` set used0" by (rule subsetD)
  then have ku: "u \<in> fst ` set used" by (simp only: rows_inv_keys [OF inv1])
  have inv2: "rows_inv (Suc i) used0 (AList.update u (elist @ [(PID, i)]) result1) (AList.update u True used)"
    by (rule rows_inv_assign [OF inv1 el ku])
  have ne: "elist \<noteq> []" using inv1 el unfolding rows_inv_def by blast
  have cov2: "covered i0 (Suc i) (AList.update u (elist @ [(PID, i)]) result1)"
    by (rule covered_assign [OF cov1 el ne])
  have rest: "\<forall>Pv \<in> set NP. \<exists>e \<in> set uni. S Pv (snd e) < eps" using Cons.prems(5) by simp
  from Cons.IH [OF rec inv2 Cons.prems(3) cov2 rest] show ?case by simp
qed

lemma classify_rows_total:
  assumes "eps \<le> 1" and "\<forall>Pv \<in> set NP. \<exists>e \<in> set uni. S Pv (snd e) < eps"
  shows "fst (classify_rows S NP PID i uni eps (result, used, warned)) = None"
  using assms(2)
proof (induction NP arbitrary: i result used warned)
  case Nil
  then show ?case by simp
next
  case (Cons Pv NP)
  obtain result1 K1 U1 where sc: "classify_scan S eps Pv uni (result, 1, None) = (result1, K1, U1)"
    by (cases "classify_scan S eps Pv uni (result, 1, None)") auto
  from Cons.prems obtain e where e: "e \<in> set uni" "S Pv (snd e) < eps" by auto
  with scan_choice [OF sc] have "K1 \<le> S Pv (snd e)" by blast
  with e assms(1) have lt: "K1 < eps" and lt1: "K1 < 1" by simp_all
  from scan_choice [OF sc] lt1 obtain e' where e': "e' \<in> set uni" "U1 = Some (fst e')" by auto
  have "map_of result1 (fst e') \<noteq> None"
    using scan_map_of [OF sc, of "fst e'"] e'(1) by (auto split: if_splits)
  then obtain elist where el: "map_of result1 (fst e') = Some elist" by blast
  have rest: "\<forall>Pv \<in> set NP. \<exists>e \<in> set uni. S Pv (snd e) < eps" using Cons.prems by simp
  show ?case
    unfolding classify_rows_Cons [OF sc] using lt e'(2) el Cons.IH [OF rest] by simp
qed

lemma classify_rows_error:
  "fst (classify_rows S NP PID i uni eps (result, used, warned)) = Some x \<Longrightarrow> x = KeyError"
proof (induction NP arbitrary: i result used warned)
  case Nil
  then show ?case by simp
next
  case (Cons Pv NP)
  obtain result1 K1 U1 where sc: "classify_scan S eps Pv uni (result, 1, None) = (result1, K1, U1)"
    by (cases "classify_scan S eps Pv uni (result, 1, None)") auto
  from Cons.prems [unfolded classify_rows_Cons [OF sc]] Cons.IH show ?case
    by (auto split: if_splits option.splits)
qed

section \<open>Classification of the whole collection\<close>

lemma rows_inv_init: "rows_inv 0 used [] used"
  by (simp add: rows_inv_def members_def)

lemma covered_init: "covered 0 0 []"
  by (simp add: covered_def)

lemma rows_inv_good: "rows_inv n used0 laes used \<Longrightarrow> good_laes n used laes"
  by (simp add: rows_inv_def good_laes_def)

lemma good_laes_mono:
  assumes "good_laes n used laes" and "\<And>u. map_of used u = Some True \<Longrightarrow> map_of used' u = Some True"
  shows "good_laes n used' laes"
proof -
  from assms(1) have mu: "\<forall>u P j. (P, j) \<in> members laes u \<longrightarrow> j < n \<and> map_of used u = Some True"
    by (simp add: good_laes_def)
  have "\<forall>u P j. (P, j) \<in> members laes u \<longrightarrow> j < n \<and> map_of used' u = Some True"
  proof (intro allI impI)
    fix u P j assume "(P, j) \<in> members laes u"
    with mu have "j < n" and "map_of used u = Some True" by blast+
    with assms(2) show "j < n \<and> map_of used' u = Some True" by simp
  qed
  with assms(1) show ?thesis by (simp add: good_laes_def)
qed

lemma classify_pass_facts:
  assumes ok: "classify_pass S NP PID uni eps used warned = (None, laes, used', warned')"
    and keys: "fst ` set uni \<subseteq> fst ` set used"
  shows "rows_inv (length NP) used laes used'"
  using classify_rows_inv [OF ok [unfolded classify_pass_def] rows_inv_init keys] by simp

lemma classify_pass_covered:
  assumes ok: "classify_pass S NP PID uni eps used warned = (None, laes, used', warned')"
    and keys: "fst ` set uni \<subseteq> fst ` set used"
    and near: "\<forall>Pv \<in> set NP. \<exists>e \<in> set uni. S Pv (snd e) < eps"
  shows "covered 0 (length NP) laes \<and> warned' = warned"
  using classify_rows_covered [OF ok [unfolded classify_pass_def] rows_inv_init keys covered_init near]
  by simp

lemma classify_all_Cons_None:
  assumes "classify_all S ((gbid, NP) # rest) U eps (GBs, used, w) = (None, R)"
  shows "\<exists>laes used1 w1. classify_pass S NP gbid U eps used w = (None, laes, used1, w1) \<and>
           classify_all S rest U eps (AList.update gbid laes GBs, used1, w1) = (None, R)"
proof -
  obtain e laes used1 w1 where p: "classify_pass S NP gbid U eps used w = (e, laes, used1, w1)"
    by (cases "classify_pass S NP gbid U eps used w") auto
  show ?thesis
  proof (cases e)
    case None
    with assms p show ?thesis by simp
  next
    case (Some x)
    with assms p show ?thesis by simp
  qed
qed

lemma rows_inv_flags:
  assumes "rows_inv n used0 laes used"
  shows "map fst used = map fst used0"
    and "map_of used0 u = Some True \<Longrightarrow> map_of used u = Some True"
    and "map_of used u = Some True \<Longrightarrow> map_of used0 u = Some True \<or> members laes u \<noteq> {}"
  using assms unfolding rows_inv_def by blast+

lemma classify_all_flags:
  assumes "classify_all S ss U eps (GBs, used, w) = (None, GBs', used', w')"
    and "fst ` set U \<subseteq> fst ` set used"
  shows "map fst used' = map fst used \<and> (\<forall>u. map_of used u = Some True \<longrightarrow> map_of used' u = Some True)"
  using assms
proof (induction ss arbitrary: GBs used w)
  case Nil
  then show ?case by simp
next
  case (Cons s ss)
  obtain gbid NP where s: "s = (gbid, NP)" by (cases s)
  from classify_all_Cons_None [OF Cons.prems(1) [unfolded s]] obtain laes used1 w1 where
    p: "classify_pass S NP gbid U eps used w = (None, laes, used1, w1)" and
    r: "classify_all S ss U eps (AList.update gbid laes GBs, used1, w1) = (None, GBs', used', w')"
    by blast
  note inv = classify_pass_facts [OF p Cons.prems(2)]
  have k1: "map fst used1 = map fst used" by (rule rows_inv_flags(1) [OF inv])
  then have "set (map fst used1) = set (map fst used)" by simp
  then have "fst ` set used1 = fst ` set used" by simp
  with Cons.prems(2) have keys1: "fst ` set U \<subseteq> fst ` set used1" by simp
  from Cons.IH [OF r keys1] have k2: "map fst used' = map fst used1"
    and m2: "\<forall>u. map_of used1 u = Some True \<longrightarrow> map_of used' u = Some True" by simp_all
  have "\<forall>u. map_of used u = Some True \<longrightarrow> map_of used' u = Some True"
  proof (intro allI impI)
    fix u assume "map_of used u = Some True"
    then have "map_of used1 u = Some True" by (rule rows_inv_flags(2) [OF inv])
    with m2 show "map_of used' u = Some True" by blast
  qed
  with k1 k2 show ?case by simp
qed

lemma classify_all_other:
  assumes "classify_all S ss U eps (GBs, used, w) = (None, GBs', used', w')"
    and "g \<notin> set (map fst ss)"
  shows "map_of GBs' g = map_of GBs g"
  using assms
proof (induction ss arbitrary: GBs used w)
  case Nil
  then show ?case by simp
next
  case (Cons s ss)
  obtain gbid NP where s: "s = (gbid, NP)" by (cases s)
  from classify_all_Cons_None [OF Cons.prems(1) [unfolded s]] obtain laes used1 w1 where
    r: "classify_all S ss U eps (AList.update gbid laes GBs, used1, w1) = (None, GBs', used', w')"
    by blast
  from Cons.prems(2) s have ne: "g \<noteq> gbid" and ni: "g \<notin> set (map fst ss)" by simp_all
  from Cons.IH [OF r ni] ne show ?case by (simp add: update_conv')
qed


lemma same_keys_image: "map fst xs = map fst ys \<Longrightarrow> fst ` set xs = fst ` set ys"
  by (metis set_map)

lemma classify_all_sample:
  assumes "classify_all S ss U eps (GBs, used, w) = (None, GBs', used', w')"
    and "fst ` set U \<subseteq> fst ` set used"
    and "distinct (map fst ss)"
    and "(gbid, NP) \<in> set ss"
  shows "\<exists>ub w0 laes u1 w1.
           classify_pass S NP gbid U eps ub w0 = (None, laes, u1, w1) \<and>
           map_of GBs' gbid = Some laes \<and>
           fst ` set U \<subseteq> fst ` set ub \<and>
           (\<forall>u. map_of u1 u = Some True \<longrightarrow> map_of used' u = Some True)"
  using assms
proof (induction ss arbitrary: GBs used w)
  case Nil
  then show ?case by simp
next
  case (Cons s ss)
  obtain g N where s: "s = (g, N)" by (cases s)
  from classify_all_Cons_None [OF Cons.prems(1) [unfolded s]] obtain laes used1 w1 where
    p: "classify_pass S N g U eps used w = (None, laes, used1, w1)" and
    r: "classify_all S ss U eps (AList.update g laes GBs, used1, w1) = (None, GBs', used', w')"
    by blast
  note inv = classify_pass_facts [OF p Cons.prems(2)]
  have "fst ` set used1 = fst ` set used"
    by (rule same_keys_image [OF rows_inv_flags(1) [OF inv]])
  with Cons.prems(2) have keys1: "fst ` set U \<subseteq> fst ` set used1" by simp
  from Cons.prems(3) s have gn: "g \<notin> set (map fst ss)" and d: "distinct (map fst ss)" by simp_all
  from Cons.prems(4) s have "(gbid, NP) = (g, N) \<or> (gbid, NP) \<in> set ss" by simp
  then show ?case
  proof
    assume "(gbid, NP) = (g, N)"
    then have e: "gbid = g" "NP = N" by simp_all
    have "map_of GBs' g = map_of (AList.update g laes GBs) g"
      by (rule classify_all_other [OF r gn])
    then have m: "map_of GBs' g = Some laes" by (simp add: update_conv')
    have f: "\<forall>u. map_of used1 u = Some True \<longrightarrow> map_of used' u = Some True"
      using classify_all_flags [OF r keys1] by simp
    from p m f Cons.prems(2) show ?thesis unfolding e by blast
  next
    assume "(gbid, NP) \<in> set ss"
    from Cons.IH [OF r keys1 d this] show ?thesis .
  qed
qed

lemma classify_all_good:
  assumes "classify_all S ss U eps (GBs, used, w) = (None, GBs', used', w')"
    and "fst ` set U \<subseteq> fst ` set used"
    and "distinct (map fst ss)"
    and "(gbid, NP) \<in> set ss"
  shows "\<exists>laes. map_of GBs' gbid = Some laes \<and> good_laes (length NP) used' laes"
proof -
  from classify_all_sample [OF assms] obtain ub w0 laes u1 w1 where
    p: "classify_pass S NP gbid U eps ub w0 = (None, laes, u1, w1)" and
    m: "map_of GBs' gbid = Some laes" and
    k: "fst ` set U \<subseteq> fst ` set ub" and
    f: "\<forall>u. map_of u1 u = Some True \<longrightarrow> map_of used' u = Some True"
    by blast
  have "good_laes (length NP) u1 laes"
    by (rule rows_inv_good [OF classify_pass_facts [OF p k]])
  then have "good_laes (length NP) used' laes"
  proof (rule good_laes_mono)
    fix u assume "map_of u1 u = Some True"
    with f show "map_of used' u = Some True" by blast
  qed
  with m show ?thesis by blast
qed


lemma classify_all_warned:
  assumes "classify_all S ss U eps (GBs, used, w) = (None, GBs', used', w')"
    and "fst ` set U \<subseteq> fst ` set used"
    and "\<And>gbid NP Pv. (gbid, NP) \<in> set ss \<Longrightarrow> Pv \<in> set NP \<Longrightarrow> \<exists>e \<in> set U. S Pv (snd e) < eps"
  shows "w' = w"
  using assms
proof (induction ss arbitrary: GBs used w)
  case Nil
  then show ?case by simp
next
  case (Cons s ss)
  obtain g N where s: "s = (g, N)" by (cases s)
  from classify_all_Cons_None [OF Cons.prems(1) [unfolded s]] obtain laes used1 w1 where
    p: "classify_pass S N g U eps used w = (None, laes, used1, w1)" and
    r: "classify_all S ss U eps (AList.update g laes GBs, used1, w1) = (None, GBs', used', w')"
    by blast
  note inv = classify_pass_facts [OF p Cons.prems(2)]
  have "fst ` set used1 = fst ` set used"
    by (rule same_keys_image [OF rows_inv_flags(1) [OF inv]])
  with Cons.prems(2) have keys1: "fst ` set U \<subseteq> fst ` set used1" by simp
  have near: "\<forall>Pv \<in> set N. \<exists>e \<in> set U. S Pv (snd e) < eps"
    using Cons.prems(3) [of g N] s by simp
  from classify_pass_covered [OF p Cons.prems(2) near] have w1: "w1 = w" by simp
  have "w' = w1"
  proof (rule Cons.IH [OF r keys1])
    fix gbid NP Pv assume "(gbid, NP) \<in> set ss" "Pv \<in> set NP"
    then show "\<exists>e \<in> set U. S Pv (snd e) < eps" using Cons.prems(3) [of gbid NP Pv] by simp
  qed
  with w1 show ?case by simp
qed

lemma classify_all_flag_source:
  assumes "classify_all S ss U eps (GBs, used, w) = (None, GBs', used', w')"
    and "fst ` set U \<subseteq> fst ` set used"
    and "distinct (map fst ss)"
    and "map_of used' u = Some True"
  shows "map_of used u = Some True \<or>
         (\<exists>gbid laes. gbid \<in> set (map fst ss) \<and> map_of GBs' gbid = Some laes \<and> members laes u \<noteq> {})"
  using assms
proof (induction ss arbitrary: GBs used w)
  case Nil
  then show ?case by simp
next
  case (Cons s ss)
  obtain g N where s: "s = (g, N)" by (cases s)
  from classify_all_Cons_None [OF Cons.prems(1) [unfolded s]] obtain laes used1 w1 where
    p: "classify_pass S N g U eps used w = (None, laes, used1, w1)" and
    r: "classify_all S ss U eps (AList.update g laes GBs, used1, w1) = (None, GBs', used', w')"
    by blast
  note inv = classify_pass_facts [OF p Cons.prems(2)]
  have "fst ` set used1 = fst ` set used"
    by (rule same_keys_image [OF rows_inv_flags(1) [OF inv]])
  with Cons.prems(2) have keys1: "fst ` set U \<subseteq> fst ` set used1" by simp
  from Cons.prems(3) s have gn: "g \<notin> set (map fst ss)" and d: "distinct (map fst ss)" by simp_all
  from Cons.IH [OF r keys1 d Cons.prems(4)]
  have "map_of used1 u = Some True \<or>
        (\<exists>gbid laes. gbid \<in> set (map fst ss) \<and> map_of GBs' gbid = Some laes \<and> members laes u \<noteq> {})" .
  then show ?case
  proof
    assume "map_of used1 u = Some True"
    from rows_inv_flags(3) [OF inv this]
    show ?thesis
    proof
      assume "map_of used u = Some True"
      then show ?thesis by simp
    next
      assume ne: "members laes u \<noteq> {}"
      have "map_of GBs' g = map_of (AList.update g laes GBs) g"
        by (rule classify_all_other [OF r gn])
      then have "map_of GBs' g = Some laes" by (simp add: update_conv')
      with ne have "g \<in> set (map fst (s # ss)) \<and> map_of GBs' g = Some laes \<and> members laes u \<noteq> {}"
        by (simp add: s)
      then show ?thesis by blast
    qed
  next
    assume "\<exists>gbid laes. gbid \<in> set (map fst ss) \<and> map_of GBs' gbid = Some laes \<and> members laes u \<noteq> {}"
    then obtain gbid laes' where "gbid \<in> set (map fst ss)" "map_of GBs' gbid = Some laes'" "members laes' u \<noteq> {}"
      by blast
    then have "gbid \<in> set (map fst (s # ss)) \<and> map_of GBs' gbid = Some laes' \<and> members laes' u \<noteq> {}"
      by simp
    then show ?thesis by blast
  qed
qed

section \<open>What \<open>uniquify\<close> returns\<close>

lemma uniquify_seed:
  assumes "uniquify S h c eps = (Inr r, w)"
  shows "\<exists>sd. seed c = Some sd"
  using assms by (cases "seed c") (simp_all add: uniquify_def)

lemma uniquify_facts:
  assumes u: "uniquify S h c eps = (Inr r, w)" and sd: "seed c = Some sd"
  obtains used' where
    "classify_all S (samples c) (uniquify_all S (samples c) [(seed_key, sd)] eps) eps
       ([], map (\<lambda>(k, v). (k, False)) (uniquify_all S (samples c) [(seed_key, sd)] eps), [])
     = (None, res_GBs r, used', w)"
    and "res_U r = sort_key (\<lambda>(u, v). - S v sd)
                     (py_items h (prune (py_items h used')
                        (uniquify_all S (samples c) [(seed_key, sd)] eps)))"
    and "distinct (map fst (res_U r))"
    and "\<forall>k. k \<in> set (map fst (res_U r)) \<longleftrightarrow> map_of used' k = Some True"
    and "fst ` set (uniquify_all S (samples c) [(seed_key, sd)] eps)
           \<subseteq> fst ` set (map (\<lambda>(k, v). (k, False)) (uniquify_all S (samples c) [(seed_key, sd)] eps))"
proof -
  let ?E = "uniquify_all S (samples c) [(seed_key, sd)] eps"
  let ?u0 = "map (\<lambda>(k, v). (k, False)) ?E"
  from uniquify_InrD [OF u sd] obtain GBs used' where
    cl: "classify_all S (samples c) ?E eps ([], ?u0, []) = (None, GBs, used', w)" and
    ru: "res_U r = sort_key (\<lambda>(u, v). - S v sd) (py_items h (prune (py_items h used') ?E))" and
    rg: "res_GBs r = GBs" by blast
  have dE: "distinct (map fst ?E)" by (rule uniquify_all_distinct) simp
  have k0: "map fst ?u0 = map fst ?E" by (rule flags_init_keys)
  have sub: "fst ` set ?E \<subseteq> fst ` set ?u0"
    using same_keys_image [OF k0] by simp
  from classify_all_flags [OF cl sub] have ku: "map fst used' = map fst ?u0" by simp
  with k0 have kE: "map fst used' = map fst ?E" by simp
  with dE have du: "distinct (map fst used')" by simp
  have d: "distinct (map fst (res_U r))"
    unfolding ru by (rule sort_key_distinct_keys [OF py_items_distinct [OF prune_distinct [OF dE]]])
  have dX: "distinct (map fst (py_items h used'))" by (rule py_items_distinct [OF du])
  have kX: "set (map fst (py_items h used')) = set (map fst ?E)"
    unfolding py_items_keys by (simp only: kE)
  have m: "k \<in> set (map fst (res_U r)) \<longleftrightarrow> map_of used' k = Some True" for k
  proof -
    have "k \<in> set (map fst (res_U r)) \<longleftrightarrow> k \<in> set (map fst (prune (py_items h used') ?E))"
      unfolding ru sort_key_keys py_items_keys ..
    also have "\<dots> \<longleftrightarrow> map_of (py_items h used') k = Some True"
      by (rule prune_keys [OF dX kX])
    also have "\<dots> \<longleftrightarrow> map_of used' k = Some True"
      by (simp only: py_items_map_of [OF du])
    finally show ?thesis .
  qed
  from cl rg have cl': "classify_all S (samples c) ?E eps ([], ?u0, []) = (None, res_GBs r, used', w)"
    by simp
  from m have m': "\<forall>k. k \<in> set (map fst (res_U r)) \<longleftrightarrow> map_of used' k = Some True" by blast
  from that [OF cl' ru d m' sub] show thesis .
qed

lemma members_nonempty_iff:
  "members laes k \<noteq> {} \<longleftrightarrow> (\<exists>elist. map_of laes k = Some elist \<and> tl elist \<noteq> [])"
  by (auto simp: members_def split: option.splits)

lemma in_keys_obtain:
  assumes "g \<in> set (map fst ss)"
  obtains x where "(g, x) \<in> set ss"
  using assms by auto

lemma finalized_iff_listed:
  assumes u: "uniquify S h c eps = (Inr r, w)" and d: "distinct (map fst (samples c))"
  shows "k \<in> set (map fst (res_U r)) \<longleftrightarrow>
         (\<exists>gbid laes. map_of (res_GBs r) gbid = Some laes \<and> members laes k \<noteq> {})"
proof -
  from uniquify_seed [OF u] obtain sd where sd: "seed c = Some sd" by blast
  let ?E = "uniquify_all S (samples c) [(seed_key, sd)] eps"
  let ?u0 = "map (\<lambda>(k, v). (k, False)) ?E"
  obtain used' where
    cl: "classify_all S (samples c) ?E eps ([], ?u0, []) = (None, res_GBs r, used', w)" and
    ru: "res_U r = sort_key (\<lambda>(u, v). - S v sd) (py_items h (prune (py_items h used') ?E))" and
    dr: "distinct (map fst (res_U r))" and
    m: "\<forall>k. k \<in> set (map fst (res_U r)) \<longleftrightarrow> map_of used' k = Some True" and
    sub: "fst ` set ?E \<subseteq> fst ` set ?u0"
    by (rule uniquify_facts [OF u sd])
  from m have mk: "k \<in> set (map fst (res_U r)) \<longleftrightarrow> map_of used' k = Some True" by (rule spec)
  show ?thesis
  proof
    assume "k \<in> set (map fst (res_U r))"
    then have t: "map_of used' k = Some True" by (simp only: mk)
    from classify_all_flag_source [OF cl sub d t]
    have "map_of ?u0 k = Some True \<or>
         (\<exists>gbid laes. gbid \<in> set (map fst (samples c)) \<and> map_of (res_GBs r) gbid = Some laes \<and>
            members laes k \<noteq> {})" .
    then show "\<exists>gbid laes. map_of (res_GBs r) gbid = Some laes \<and> members laes k \<noteq> {}"
    proof
      assume "map_of ?u0 k = Some True"
      with flags_init_False [of ?E k] show ?thesis by simp
    next
      assume "\<exists>gbid laes. gbid \<in> set (map fst (samples c)) \<and> map_of (res_GBs r) gbid = Some laes \<and>
            members laes k \<noteq> {}"
      then obtain gbid laes where "map_of (res_GBs r) gbid = Some laes \<and> members laes k \<noteq> {}"
        by blast
      then show ?thesis by (intro exI)
    qed
  next
    assume "\<exists>gbid laes. map_of (res_GBs r) gbid = Some laes \<and> members laes k \<noteq> {}"
    then obtain gbid laes where g: "map_of (res_GBs r) gbid = Some laes" and ne: "members laes k \<noteq> {}"
      by blast
    have "gbid \<in> set (map fst (samples c))"
    proof (rule ccontr)
      assume "gbid \<notin> set (map fst (samples c))"
      from classify_all_other [OF cl this] g show False by simp
    qed
    then obtain NP where "(gbid, NP) \<in> set (samples c)" by (rule in_keys_obtain)
    from classify_all_good [OF cl sub d this] g have good: "good_laes (length NP) used' laes" by simp
    then have mu: "\<forall>u P j. (P, j) \<in> members laes u \<longrightarrow> j < length NP \<and> map_of used' u = Some True"
      by (simp add: good_laes_def)
    from ne obtain x where "x \<in> members laes k" by blast
    then obtain P j where "(P, j) \<in> members laes k" by (cases x) simp
    with mu have "map_of used' k = Some True" by blast
    then show "k \<in> set (map fst (res_U r))" by (simp only: mk)
  qed
qed

text \<open>
  C6, amended. When \<open>uniquify\<close> returns, the seed's identifier is in the finalized
  catalogue exactly when some sample's classification lists at least one atom under the
  seed entry (after the entry's own identifier), and the same holds of every identifier
  \<open>k\<close>: the finalized catalogue holds the entries to which an atom was classified, and
  the seed is pruned like any other entry when none was. Sample ids are distinct, as
  dictionary keys are.
\<close>

theorem finalized_holds_used_entries:
  assumes "uniquify S h c eps = (Inr r, w)" and "distinct (map fst (samples c))"
  shows "(seed_key \<in> fst ` set (res_U r) \<longleftrightarrow>
            (\<exists>gbid laes elist. map_of (res_GBs r) gbid = Some laes \<and>
               map_of laes seed_key = Some elist \<and> tl elist \<noteq> [])) \<and>
         (k \<in> fst ` set (res_U r) \<longleftrightarrow>
            (\<exists>gbid laes elist. map_of (res_GBs r) gbid = Some laes \<and>
               map_of laes k = Some elist \<and> tl elist \<noteq> []))"
proof -
  have "x \<in> fst ` set (res_U r) \<longleftrightarrow>
            (\<exists>gbid laes elist. map_of (res_GBs r) gbid = Some laes \<and>
               map_of laes x = Some elist \<and> tl elist \<noteq> [])" for x
  proof -
    have "x \<in> fst ` set (res_U r) \<longleftrightarrow> x \<in> set (map fst (res_U r))" by simp
    also have "\<dots> \<longleftrightarrow> (\<exists>gbid laes. map_of (res_GBs r) gbid = Some laes \<and> members laes x \<noteq> {})"
      by (rule finalized_iff_listed [OF assms])
    also have "\<dots> \<longleftrightarrow> (\<exists>gbid laes elist. map_of (res_GBs r) gbid = Some laes \<and>
               map_of laes x = Some elist \<and> tl elist \<noteq> [])"
      unfolding members_nonempty_iff by blast
    finally show ?thesis .
  qed
  then show ?thesis by blast
qed

theorem finalized_holds_used_entries_witness:
  "uniquify absdiff insertion_order (fresh_collection (Some 0) [(''453'', [0, 5])]) (1/2)
     = (Inr \<lparr>res_U = [((''453'', 1), 5), (seed_key, 0)],
             res_GBs = [(''453'', [(seed_key, [seed_key, (''453'', 0)]),
                                  ((''453'', 1), [(''453'', 1), (''453'', 1)])])]\<rparr>, []) \<and>
   distinct (map fst (samples (fresh_collection (Some (0::real)) [(''453'', [0, 5])]))) \<and>
   seed_key \<in> fst ` set [((''453'', 1), 5::real), (seed_key, 0)]"
proof -
  have u: "uniquify absdiff insertion_order (fresh_collection (Some 0) [(''453'', [0, 5])]) (1/2)
     = (Inr \<lparr>res_U = [((''453'', 1), 5), (seed_key, 0)],
             res_GBs = [(''453'', [(seed_key, [seed_key, (''453'', 0)]),
                                  ((''453'', 1), [(''453'', 1), (''453'', 1)])])]\<rparr>, [])"
    by (simp add: uniquify_def fresh_collection_def uniquify_pass_def classify_pass_def
        absdiff_def seed_key_def py_items_def insertion_order_def)
  have d: "distinct (map fst (samples (fresh_collection (Some (0::real)) [(''453'', [0, 5])])))"
    by (simp add: fresh_collection_def)
  from finalized_holds_used_entries [OF u d, of seed_key] u d show ?thesis by simp
qed

section \<open>Every atom is classified\<close>








lemma classify_all_total:
  assumes "eps \<le> 1"
    and "\<And>gbid NP Pv. (gbid, NP) \<in> set ss \<Longrightarrow> Pv \<in> set NP \<Longrightarrow> \<exists>e \<in> set U. S Pv (snd e) < eps"
  shows "fst (classify_all S ss U eps (GBs, used, w)) = None"
  using assms(2)
proof (induction ss arbitrary: GBs used w)
  case Nil
  then show ?case by simp
next
  case (Cons s ss)
  obtain g N where s: "s = (g, N)" by (cases s)
  have near: "\<forall>Pv \<in> set N. \<exists>e \<in> set U. S Pv (snd e) < eps"
    using Cons.prems [of g N] s by simp
  obtain e laes used1 w1 where p: "classify_pass S N g U eps used w = (e, laes, used1, w1)"
    by (cases "classify_pass S N g U eps used w") auto
  have "fst (classify_pass S N g U eps used w) = None"
    unfolding classify_pass_def by (rule classify_rows_total [OF assms(1) near])
  with p have e: "e = None" by simp
  have "fst (classify_all S ss U eps (AList.update g laes GBs, used1, w1)) = None"
  proof (rule Cons.IH)
    fix gbid NP Pv assume "(gbid, NP) \<in> set ss" "Pv \<in> set NP"
    then show "\<exists>e \<in> set U. S Pv (snd e) < eps" using Cons.prems [of gbid NP Pv] by simp
  qed
  with p e show ?case by (simp add: s)
qed

lemma classify_all_error:
  "fst (classify_all S ss U eps (GBs, used, w)) = Some x \<Longrightarrow> x = KeyError"
proof (induction ss arbitrary: GBs used w)
  case Nil
  then show ?case by simp
next
  case (Cons s ss)
  obtain g N where s: "s = (g, N)" by (cases s)
  obtain e laes used1 w1 where p: "classify_pass S N g U eps used w = (e, laes, used1, w1)"
    by (cases "classify_pass S N g U eps used w") auto
  show ?case
  proof (cases e)
    case None
    with Cons.prems p s have "fst (classify_all S ss U eps (AList.update g laes GBs, used1, w1)) = Some x"
      by simp
    then show ?thesis by (rule Cons.IH)
  next
    case (Some y)
    with Cons.prems p s have "y = x" by simp
    moreover from p Some have "fst (classify_rows S N g 0 U eps ([], used, w)) = Some y"
      by (simp add: classify_pass_def)
    then have "y = KeyError" by (rule classify_rows_error)
    ultimately show ?thesis by simp
  qed
qed

section \<open>Two thresholds\<close>










section \<open>Claims settled by direct computation\<close>

text \<open>
  C8. When no seed is configured, \<open>uniquify\<close> raises its \<open>ValueError\<close> at once: no
  warning has been issued and the outcome does not depend on the samples. The pipeline
  through \<open>U\<close> and \<open>LER\<close> (nothing cached for the threshold) raises the same error and
  leaves the collection exactly as it was, so everything that does not need the seed still
  works.
\<close>

theorem uniquify_without_seed_raises:
  assumes "seed c = None" and "store_U c eps = None" and "store_LER c eps = None"
  shows "uniquify S h c eps = (Inl ValueError, []) \<and>
         get_U S h c eps = (Inl ValueError, c) \<and>
         LER S h c eps = (Inl ValueError, c)"
proof -
  have u: "uniquify S h c eps = (Inl ValueError, [])"
    using assms(1) by (simp add: uniquify_def)
  have g: "get_U S h c eps = (Inl ValueError, c)"
    using assms(2) u by (simp add: get_U_def)
  have "LER S h c eps = (Inl ValueError, c)"
    using assms(3) g by (simp add: LER_def)
  with u g show ?thesis by simp
qed

theorem uniquify_without_seed_raises_witness:
  "uniquify absdiff insertion_order
     \<lparr>seed = None, samples = [(''453'', [0, 1/4])],
      gbs = [(''453'', \<lparr>xyz = [(), ()], LAEs = Some [None, None], selectargs = DictArg []\<rparr>)],
      store_U = (\<lambda>t. None), store_LER = (\<lambda>t. None), logged = []\<rparr> (1/400)
   = (Inl ValueError, []) \<and>
   fst (LER absdiff insertion_order
     \<lparr>seed = None, samples = [(''453'', [0, 1/4])],
      gbs = [(''453'', \<lparr>xyz = [(), ()], LAEs = Some [None, None], selectargs = DictArg []\<rparr>)],
      store_U = (\<lambda>t. None), store_LER = (\<lambda>t. None), logged = []\<rparr> (1/400))
   = Inl ValueError"
  using uniquify_without_seed_raises [of
     "\<lparr>seed = None, samples = [(''453'', [0, 1/4])],
      gbs = [(''453'', \<lparr>xyz = [(), ()], LAEs = Some [None, None], selectargs = DictArg []\<rparr>)],
      store_U = (\<lambda>t. None), store_LER = (\<lambda>t. None), logged = []\<rparr>" "1/400" absdiff insertion_order]
  by simp




text \<open>
  C1 at a threshold above 1. The catalogue holds the seed alone, the threshold is 2 and the
  atom lies at dissimilarity 3/2 from the seed, so the seed is its nearest entry and is
  below the threshold. The comparison with the initial \<open>K0 = 1.0\<close> rejects it, \<open>U0\<close>
  stays \<open>None\<close>, and \<open>result[U0]\<close> raises \<open>KeyError\<close>: the atom is not assigned and the
  seed is not marked as used.
\<close>

theorem classify_above_one_misses_nearest:
  "classify_pass absdiff [3/2] ''453'' [(seed_key, 0)] 2 [(seed_key, False)] []
     = (Some KeyError, [(seed_key, [seed_key])], [(seed_key, False)], [])"
  by (simp add: classify_pass_def absdiff_def seed_key_def py_items_def insertion_order_def)

text \<open>
  C7 at a threshold above 1. The first atom lies at dissimilarity 3 from the only entry,
  not below the threshold 2. No warning is issued for it: the test \<open>K0 < eps\<close> holds for
  the initial \<open>K0 = 1.0\<close>, \<open>result[None]\<close> raises \<open>KeyError\<close>, and the second atom, equal
  to the seed, is never visited.
\<close>

theorem classify_above_one_aborts:
  "classify_pass absdiff [3, 0] ''453'' [(seed_key, 0)] 2 [(seed_key, False)] []
     = (Some KeyError, [(seed_key, [seed_key])], [(seed_key, False)], [])"
  by (simp add: classify_pass_def absdiff_def seed_key_def py_items_def insertion_order_def)

text \<open>
  C3 as stated fails: with the seed 0 and one sample with the atoms 0 and 5, the finalized
  catalogue starts with the entry at dissimilarity 5 from the seed and ends with the seed
  itself, at dissimilarity 0.
\<close>

theorem finalized_order_counterexample:
  "map_sum id res_U
     (fst (uniquify absdiff insertion_order (fresh_collection (Some 0) [(''453'', [0, 5])]) (1/2)))
     = Inr [((''453'', 1), 5), (seed_key, 0)]"
  by (simp add: uniquify_def fresh_collection_def uniquify_pass_def classify_pass_def
      absdiff_def seed_key_def py_items_def insertion_order_def)

text \<open>
  C6 as stated fails: with the seed 0 and one sample whose only atom is 5, no atom is
  classified to the seed, and the finalized catalogue holds the atom's entry alone.
\<close>

theorem seed_pruned_counterexample:
  "map_sum id res_U
     (fst (uniquify absdiff insertion_order (fresh_collection (Some 0) [(''453'', [5])]) (1/2)))
     = Inr [((''453'', 0), 5)]"
  by (simp add: uniquify_def fresh_collection_def uniquify_pass_def classify_pass_def
      absdiff_def seed_key_def py_items_def insertion_order_def)


text \<open>
  C2 for a sample named \<open>'0'\<close>. The seed is 0 and the only atom, row 0 of the sample
  \<open>'0'\<close>, lies at dissimilarity 5 from it, not below the threshold 1/2: the atom is to
  become a second entry, as in the extraction the specification words. Its identifier
  \<open>('0', 0)\<close> is the key of the seed, so the store replaces the seed's vector: the
  catalogue after the first loop, and the catalogue \<open>uniquify\<close> returns, hold the one key
  with the vector 5, and the seed vector is gone.
\<close>

theorem seed_overwritten_by_sample_zero:
  "uniquify_all absdiff [(''0'', [5])] [(seed_key, 0)] (1/2) = [(seed_key, 5)] \<and>
   extract_spec absdiff 0 [(''0'', [5])] (1/2) = [(seed_key, 0), ((''0'', 0), 5)] \<and>
   map_sum id res_U
     (fst (uniquify absdiff insertion_order (fresh_collection (Some 0) [(''0'', [5])]) (1/2)))
     = Inr [(seed_key, 5)]"
  by (simp add: uniquify_def fresh_collection_def uniquify_pass_def classify_pass_def
      extract_spec_def extract_step_def atoms_of_def
      absdiff_def seed_key_def py_items_def insertion_order_def)

text \<open>
  C5 for a sample named \<open>'0'\<close>. The seed is 0, the threshold 1/2; the sample \<open>'1'\<close>
  has one atom at 1/10, which the extraction skips as similar to the seed; the sample
  \<open>'0'\<close> has one atom at 5, whose store replaces the seed's vector. The classification
  then finds no entry for the atom of \<open>'1'\<close> and warns, the run completes, and the
  assertion of \<open>LER\<close> fails for the sample \<open>'1'\<close>: no atom counted, one atom present.
\<close>

theorem assertion_fails_after_seed_overwrite:
  "map_sum id res_U
     (fst (uniquify absdiff insertion_order
             (fresh_collection (Some 0) [(''1'', [1/10]), (''0'', [5])]) (1/2)))
     = Inr [(seed_key, 5)] \<and>
   snd (uniquify absdiff insertion_order
          (fresh_collection (Some 0) [(''1'', [1/10]), (''0'', [5])]) (1/2)) = [(''1'', 0)] \<and>
   fst (LER absdiff insertion_order
          (fresh_collection (Some 0) [(''1'', [1/10]), (''0'', [5])]) (1/2)) = Inl AssertionError"
  by (simp add: LER_def get_U_def uniquify_def fresh_collection_def uniquify_pass_def
      classify_pass_def absdiff_def seed_key_def py_items_def insertion_order_def
      count_row_def)

end
